theory Spec2Isabelle
  imports Main
begin

section \<open>Values shared by the whole client\<close>

text \<open>
  The client of \<^verbatim>\<open>nntp.go\<close> is modelled function by function. A Go \<^verbatim>\<open>error\<close> is a value of
  the datatype \<open>error\<close>: \<open>IOError\<close> holds the errors that streams report (\<open>StreamError\<close> is
  any of them that the client does not tell apart: a network failure, corrupt compressed
  data), \<open>Error\<close> is the type \<^verbatim>\<open>Error\<close> of the package. A run-time panic (an index out of
  range, a nil dereference) is not an error value, it unwinds through every caller, so it is
  kept apart in \<open>exec\<close>.
  Messages built with \<^verbatim>\<open>fmt.Sprintf\<close> are kept as the format and its arguments.
\<close>

datatype fmtarg = Str string | Strs "string list"

datatype ioerr =
    EOF
  | ErrUnexpectedEOF
  | ErrBufferFull
  | StreamError string

datatype error =
    IOError ioerr
  | ProtocolError string
  | ProtocolErrorf string "fmtarg list"
  | Errorf string "fmtarg list"
  | Error nat string

datatype 'a exec = Panic string | Return 'a

abbreviation HT :: char where "HT \<equiv> CHR 0x09"
abbreviation LF :: char where "LF \<equiv> CHR 0x0A"
abbreviation CR :: char where "CR \<equiv> CHR 0x0D"
abbreviation SP :: char where "SP \<equiv> CHR 0x20"

section \<open>Library functions the client calls\<close>

subsection \<open>strings\<close>

definition HasPrefix :: "string \<Rightarrow> string \<Rightarrow> bool" where
  "HasPrefix s p = (take (length p) s = p)"

definition HasSuffix :: "string \<Rightarrow> string \<Rightarrow> bool" where
  "HasSuffix s p = (length p \<le> length s \<and> drop (length s - length p) s = p)"

fun Contains :: "string \<Rightarrow> string \<Rightarrow> bool" where
  "Contains [] sub = (sub = [])"
| "Contains (c # cs) sub = (HasPrefix (c # cs) sub \<or> Contains cs sub)"

text \<open>
  \<^verbatim>\<open>strings.TrimSpace\<close> removes leading and trailing white space as Unicode defines it
  (the property White_Space since Unicode 6.3): the six ASCII characters and, in UTF-8,
  U+0085, U+00A0, U+1680, U+2000 to U+200A, U+2028, U+2029, U+202F, U+205F and U+3000.
\<close>

definition asciiSpace :: "char \<Rightarrow> bool" where
  "asciiSpace c = (c = HT \<or> c = LF \<or> c = CHR 0x0B \<or> c = CHR 0x0C \<or> c = CR \<or> c = SP)"

definition unicodeSpaces :: "string list" where
  "unicodeSpaces =
     [[CHR 0xC2, CHR 0x85], [CHR 0xC2, CHR 0xA0], [CHR 0xE1, CHR 0x9A, CHR 0x80],
      [CHR 0xE2, CHR 0x80, CHR 0x80], [CHR 0xE2, CHR 0x80, CHR 0x81],
      [CHR 0xE2, CHR 0x80, CHR 0x82], [CHR 0xE2, CHR 0x80, CHR 0x83],
      [CHR 0xE2, CHR 0x80, CHR 0x84], [CHR 0xE2, CHR 0x80, CHR 0x85],
      [CHR 0xE2, CHR 0x80, CHR 0x86], [CHR 0xE2, CHR 0x80, CHR 0x87],
      [CHR 0xE2, CHR 0x80, CHR 0x88], [CHR 0xE2, CHR 0x80, CHR 0x89],
      [CHR 0xE2, CHR 0x80, CHR 0x8A], [CHR 0xE2, CHR 0x80, CHR 0xA8],
      [CHR 0xE2, CHR 0x80, CHR 0xA9], [CHR 0xE2, CHR 0x80, CHR 0xAF],
      [CHR 0xE2, CHR 0x81, CHR 0x9F], [CHR 0xE3, CHR 0x80, CHR 0x80]]"

definition leadingSpace :: "string \<Rightarrow> nat" where
  "leadingSpace s =
     (case s of [] \<Rightarrow> 0
      | c # _ \<Rightarrow> if asciiSpace c then 1
                else (case filter (HasPrefix s) unicodeSpaces of [] \<Rightarrow> 0 | u # _ \<Rightarrow> length u))"

definition trailingSpace :: "string \<Rightarrow> nat" where
  "trailingSpace s =
     (case rev s of [] \<Rightarrow> 0
      | c # _ \<Rightarrow> if asciiSpace c then 1
                else (case filter (HasSuffix s) unicodeSpaces of [] \<Rightarrow> 0 | u # _ \<Rightarrow> length u))"

function TrimLeftSpace :: "string \<Rightarrow> string" where
  "TrimLeftSpace s = (if leadingSpace s = 0 then s else TrimLeftSpace (drop (leadingSpace s) s))"
  by pat_completeness auto
termination
  by (relation "measure length") (auto simp: leadingSpace_def split: list.splits)

function TrimRightSpace :: "string \<Rightarrow> string" where
  "TrimRightSpace s =
     (if trailingSpace s = 0 then s else TrimRightSpace (take (length s - trailingSpace s) s))"
  by pat_completeness auto
termination
  by (relation "measure length") (auto simp: trailingSpace_def split: list.splits)

definition TrimSpace :: "string \<Rightarrow> string" where
  "TrimSpace s = TrimRightSpace (TrimLeftSpace s)"

text \<open>\<^verbatim>\<open>strings.TrimRight(s, "\r\n")\<close>, the only cutset the client uses.\<close>

definition TrimRight_crlf :: "string \<Rightarrow> string" where
  "TrimRight_crlf s = rev (dropWhile (\<lambda>c. c = CR \<or> c = LF) (rev s))"

text \<open>\<^verbatim>\<open>strings.Split(s, sep)\<close> for a separator of one byte.\<close>

fun Split :: "string \<Rightarrow> char \<Rightarrow> string list" where
  "Split [] sep = [[]]"
| "Split (c # cs) sep =
     (if c = sep then [] # Split cs sep
      else (case Split cs sep of [] \<Rightarrow> [[c]] | f # fs \<Rightarrow> (c # f) # fs))"

text \<open>\<^verbatim>\<open>strings.SplitN(s, sep, n)\<close> for a separator of one byte and \<open>n > 0\<close>: at most \<open>n\<close>
  pieces, the last one the unsplit remainder.\<close>

fun SplitN :: "string \<Rightarrow> char \<Rightarrow> nat \<Rightarrow> string list" where
  "SplitN s sep 0 = []"
| "SplitN s sep (Suc 0) = [s]"
| "SplitN [] sep (Suc (Suc n)) = [[]]"
| "SplitN (c # cs) sep (Suc (Suc n)) =
     (if c = sep then [] # SplitN cs sep (Suc n)
      else (case SplitN cs sep (Suc (Suc n)) of [] \<Rightarrow> [[c]] | f # fs \<Rightarrow> (c # f) # fs))"

subsection \<open>strconv\<close>

text \<open>
  Base 10 only, as every call of the client asks. \<^verbatim>\<open>int\<close> and \<^verbatim>\<open>uint\<close> are taken as 64 bits
  wide. The callers modelled here only test the error against \<^verbatim>\<open>nil\<close>, so a failed parse
  is \<open>None\<close>.
\<close>

definition digit :: "char \<Rightarrow> int option" where
  "digit c = (let n = (of_char c :: int) in if 48 \<le> n \<and> n \<le> 57 then Some (n - 48) else None)"

fun decimal :: "int \<Rightarrow> string \<Rightarrow> int option" where
  "decimal acc [] = Some acc"
| "decimal acc (c # cs) =
     (case digit c of None \<Rightarrow> None | Some d \<Rightarrow> decimal (10 * acc + d) cs)"

definition ParseUint :: "string \<Rightarrow> nat option" where
  "ParseUint s =
     (if s = [] then None
      else (case decimal 0 s of None \<Rightarrow> None
            | Some n \<Rightarrow> if n < 2 ^ 64 then Some (nat n) else None))"

definition ParseInt :: "string \<Rightarrow> int option" where
  "ParseInt s =
     (case s of [] \<Rightarrow> None
      | c # cs \<Rightarrow>
          let neg = (c = CHR ''-'');
              body = (if c = CHR ''+'' \<or> c = CHR ''-'' then cs else s)
          in if body = [] then None
             else (case decimal 0 body of None \<Rightarrow> None
                   | Some un \<Rightarrow>
                       if \<not> neg \<and> 2 ^ 63 \<le> un then None
                       else if neg \<and> 2 ^ 63 < un then None
                       else Some (if neg then - un else un)))"

definition Atoi :: "string \<Rightarrow> int option" where
  "Atoi s = ParseInt s"

text \<open>\<^verbatim>\<open>strconv.Itoa\<close> and the verb \<^verbatim>\<open>%d\<close>.\<close>

fun digits :: "nat \<Rightarrow> string" where
  "digits n = (if n < 10 then [char_of (48 + n)] else digits (n div 10) @ [char_of (48 + n mod 10)])"

definition Itoa :: "int \<Rightarrow> string" where
  "Itoa i = (if i < 0 then CHR ''-'' # digits (nat (- i)) else digits (nat i))"

subsection \<open>bufio.Reader\<close>

text \<open>
  A buffered reader is the bytes its source will still deliver and the error the source
  reports once they are used up (\<open>EOF\<close> when the peer has closed, another stream error
  otherwise).
\<close>

record Reader =
  pending :: string
  fin :: ioerr

fun cutLine :: "char \<Rightarrow> string \<Rightarrow> (string \<times> string) option" where
  "cutLine d [] = None"
| "cutLine d (c # cs) =
     (if c = d then Some ([c], cs)
      else (case cutLine d cs of None \<Rightarrow> None | Some (l, rest) \<Rightarrow> Some (c # l, rest)))"

text \<open>\<^verbatim>\<open>ReadString\<close> and \<^verbatim>\<open>ReadBytes\<close>: up to and including the delimiter; without one, what is
  left and the error.\<close>

definition ReadString :: "char \<Rightarrow> Reader \<Rightarrow> string \<times> error option \<times> Reader" where
  "ReadString delim b =
     (case cutLine delim (pending b) of
        Some (l, rest) \<Rightarrow> (l, None, b\<lparr>pending := rest\<rparr>)
      | None \<Rightarrow> (pending b, Some (IOError (fin b)), b\<lparr>pending := []\<rparr>))"

definition ReadBytes :: "char \<Rightarrow> Reader \<Rightarrow> string \<times> error option \<times> Reader" where
  "ReadBytes delim b = ReadString delim b"

lemma cutLine_length: "cutLine d s = Some (l, rest) \<Longrightarrow> length s = length l + length rest \<and> l \<noteq> []"
  by (induction s arbitrary: l rest) (auto split: if_splits option.splits)

section \<open>The connection and its body reader\<close>

text \<open>
  \<open>rd\<close> is the field \<^verbatim>\<open>r\<close>; \<open>wr\<close> lists what has been written to \<^verbatim>\<open>w\<close>, one entry for each
  write; \<open>werr\<close> is the error a write fails with when the connection is broken; \<open>br\<close>,
  \<open>close\<close> and the two quirks are the fields of the same names. A \<^verbatim>\<open>bodyReader\<close> reads from
  the connection it belongs to, so its \<open>Read\<close> takes and returns that connection's reader.
\<close>

record bodyReader =
  eof :: bool
  buf :: string

record Conn =
  rd :: Reader
  wr :: "string list"
  werr :: "ioerr option"
  br :: "bodyReader option"
  close :: bool
  xzverUnsupported :: bool
  xzverSupported :: bool

text \<open>\<open>Read n\<close> is \<^verbatim>\<open>Read(p)\<close> with \<^verbatim>\<open>len(p) = n\<close>; it returns the bytes copied into \<^verbatim>\<open>p\<close>.
  A line that is a lone LF has no byte at \<^verbatim>\<open>len(b)-2\<close>: the index panics.\<close>

definition Read ::
  "nat \<Rightarrow> bodyReader \<Rightarrow> Reader \<Rightarrow> (string \<times> error option \<times> bodyReader \<times> Reader) exec" where
  "Read n r cr =
     (if eof r then Return ([], Some (IOError EOF), r, cr)
      else if buf r = [] then
        (case ReadBytes LF cr of
           (b, Some err, cr') \<Rightarrow> Return ([], Some err, r, cr')
         | (b, None, cr') \<Rightarrow>
             if length b < 2 then Panic ''index out of range''
             else
               let b = (if b ! (length b - 2) = CR then take (length b - 2) b @ [LF] else b)
               in if b = [CHR ''.'', LF] then Return ([], Some (IOError EOF), r\<lparr>eof := True\<rparr>, cr')
                  else
                    let b = (if HasPrefix b ''..'' then tl b else b)
                    in Return (take n b, None, r\<lparr>buf := drop n b\<rparr>, cr'))
      else Return (take n (buf r), None, r\<lparr>buf := drop n (buf r)\<rparr>, cr))"

lemma Read_progress:
  assumes "Read (Suc k) r cr = Return (p, None, r', cr')"
  shows "length (pending cr') + length (buf r') < length (pending cr) + length (buf r)"
proof (cases "buf r = []")
  case False
  with assms show ?thesis
    by (auto simp: Read_def split: if_splits)
next
  case True
  from assms True obtain b where c: "cutLine LF (pending cr) = Some (b, pending cr')"
    and b2: "2 \<le> length b" and le: "length (buf r') < length b"
    by (auto simp: Read_def ReadBytes_def ReadString_def Let_def HasPrefix_def
        split: if_splits option.splits prod.splits)
  from cutLine_length [OF c] le True show ?thesis by simp
qed

text \<open>
  \<^verbatim>\<open>ioutil.ReadAll\<close> calls \<^verbatim>\<open>Read\<close> with the free part of a buffer that it grows before it
  is full, so never with an empty one: \<open>ReadAll k\<close> reads \<open>Suc k\<close> bytes at a time. It ends at
  the first error and reports it unless it is \<open>EOF\<close>.
\<close>

function ReadAll ::
  "nat \<Rightarrow> bodyReader \<Rightarrow> Reader \<Rightarrow> string \<Rightarrow> (string \<times> error option \<times> bodyReader \<times> Reader) exec"
  where
  "ReadAll k r cr acc =
     (case Read (Suc k) r cr of
        Panic m \<Rightarrow> Panic m
      | Return (p, Some e, r', cr') \<Rightarrow> Return (acc @ p, (if e = IOError EOF then None else Some e), r', cr')
      | Return (p, None, r', cr') \<Rightarrow> ReadAll k r' cr' (acc @ p))"
  by pat_completeness auto
termination
  by (relation "measure (\<lambda>(k, r, cr, acc). length (pending cr) + length (buf r))")
     (auto dest: Read_progress)

declare ReadAll.simps [simp del]

text \<open>\<^verbatim>\<open>ReadAll\<close> starts with \<^verbatim>\<open>bytes.MinRead\<close> = 512 free bytes.\<close>

definition discard :: "bodyReader \<Rightarrow> Reader \<Rightarrow> (error option \<times> bodyReader \<times> Reader) exec" where
  "discard r cr =
     (case ReadAll 511 r cr [] of
        Panic m \<Rightarrow> Panic m
      | Return (_, err, r', cr') \<Rightarrow> Return (err, r', cr'))"

definition body :: "Conn \<Rightarrow> Conn" where
  "body c = c\<lparr>br := Some \<lparr>eof = False, buf = []\<rparr>\<rparr>"

section \<open>cmd\<close>

definition Fprintf :: "string \<Rightarrow> Conn \<Rightarrow> error option \<times> Conn" where
  "Fprintf s c = (case werr c of Some e \<Rightarrow> (Some (IOError e), c) | None \<Rightarrow> (None, c\<lparr>wr := wr c @ [s]\<rparr>))"

text \<open>The first step of \<^verbatim>\<open>cmd\<close> on an open connection: an unread body is discarded.\<close>

definition drain :: "Conn \<Rightarrow> (error option \<times> Conn) exec" where
  "drain c =
     (case br c of
        None \<Rightarrow> Return (None, c)
      | Some r \<Rightarrow>
          (case discard r (rd c) of
             Panic m \<Rightarrow> Panic m
           | Return (Some e, r', cr') \<Rightarrow> Return (Some e, c\<lparr>rd := cr', br := Some r'\<rparr>)
           | Return (None, r', cr') \<Rightarrow> Return (None, c\<lparr>rd := cr', br := None\<rparr>)))"

text \<open>\<open>cmd expectCode command c\<close>: \<open>command\<close> is the command line as formatted, without its
  CRLF. The result is the triple the Go function returns, and the connection.\<close>

definition cmd :: "nat \<Rightarrow> string \<Rightarrow> Conn \<Rightarrow> (nat \<times> string \<times> error option \<times> Conn) exec" where
  "cmd expectCode command c =
     (if close c then Return (0, [], Some (ProtocolError ''connection closed''), c)
      else
        (case drain c of
           Panic m \<Rightarrow> Panic m
         | Return (Some e, c1) \<Rightarrow> Return (0, [], Some e, c1)
         | Return (None, c1) \<Rightarrow>
             (case Fprintf (command @ [CR, LF]) c1 of
                (Some e, c2) \<Rightarrow> Return (0, [], Some e, c2)
              | (None, c2) \<Rightarrow>
                  (case ReadString LF (rd c2) of
                     (line, Some e, cr) \<Rightarrow> Return (0, [], Some e, c2\<lparr>rd := cr\<rparr>)
                   | (line, None, cr) \<Rightarrow>
                       let c3 = c2\<lparr>rd := cr\<rparr>; line = TrimSpace line
                       in if length line < 4 \<or> line ! 3 \<noteq> SP
                          then Return (0, [], Some (ProtocolErrorf ''short response: %+q'' [Str line]), c3)
                          else
                            (case ParseUint (take 3 line) of
                               None \<Rightarrow>
                                 Return (0, [], Some (ProtocolError (''invalid response code: '' @ line)), c3)
                             | Some code \<Rightarrow>
                                 let line = drop 4 line
                                 in if 1 \<le> expectCode \<and> expectCode < 10 \<and> code div 100 \<noteq> expectCode \<or>
                                       10 \<le> expectCode \<and> expectCode < 100 \<and> code div 10 \<noteq> expectCode \<or>
                                       100 \<le> expectCode \<and> expectCode < 1000 \<and> code \<noteq> expectCode
                                    then Return (code, line, Some (Error code line), c3)
                                    else Return (code, line, None, c3))))))"

section \<open>Overview lines\<close>

text \<open>
  \<^verbatim>\<open>parseDate\<close> is defined in another file of the package: it is a parameter, \<open>None\<close> when it
  reports an error. \<open>Date = None\<close> is the zero \<^verbatim>\<open>time.Time\<close>.
\<close>

record 't MessageOverview =
  MessageNumber :: int
  Subject :: string
  From :: string
  Date :: "'t option"
  MessageId :: string
  References :: "string list"
  Bytes :: int
  Lines :: int
  Extra :: "string list"

text \<open>
  The loop that glues tab-delimited references. \<^verbatim>\<open>append(ss[:6], ss[7:]...)\<close> moves the tail
  one place down inside the same array. The second component is \<^verbatim>\<open>overview.Bytes\<close> when the
  loop ends on a field that parses, \<open>None\<close> when it ends because fewer than 8 fields are left.
\<close>

function glue :: "string list \<Rightarrow> string list \<times> int option" where
  "glue ss =
     (if length ss < 8 then (ss, None)
      else (case Atoi (ss ! 6) of
              Some n \<Rightarrow> (ss, Some n)
            | None \<Rightarrow> glue (take 5 ss @ [ss ! 5 @ ss ! 6] @ drop 7 ss)))"
  by pat_completeness auto
termination
  by (relation "measure length") auto

declare glue.simps [simp del]

text \<open>The body of the loop of \<^verbatim>\<open>parseOverview\<close> for one line that is not the terminator.
  After the gluing loop \<^verbatim>\<open>ss[7]\<close> is read without a test of the length.\<close>

definition overviewLine :: "(string \<Rightarrow> 't option) \<Rightarrow> string \<Rightarrow> (error + 't MessageOverview) exec" where
  "overviewLine parseDate line =
     (let ss = Split (TrimSpace line) HT
      in if length ss < 8
         then Return (Inl (ProtocolError
                (''short header listing line: '' @ line @ Itoa (int (length ss)))))
         else
           (case ParseInt (ss ! 0) of
              None \<Rightarrow> Return (Inl (ProtocolError
                (''bad message number '' @ [CHR 0x27] @ ss ! 0 @ [CHR 0x27] @ '' in line: '' @ line)))
            | Some num \<Rightarrow>
                (case glue ss of (gs, bytes) \<Rightarrow>
                   if length gs \<le> 7 then Panic ''index out of range''
                   else
                     let overview = \<lparr>MessageNumber = num, Subject = ss ! 1, From = ss ! 2,
                           Date = parseDate (ss ! 3), MessageId = ss ! 4,
                           References = Split (gs ! 5) SP,
                           Bytes = (case bytes of Some n \<Rightarrow> n | None \<Rightarrow> 0),
                           Lines = 0, Extra = drop 8 gs\<rparr>
                     in if gs ! 7 = [] then Return (Inr overview)
                        else
                          (case Atoi (gs ! 7) of
                             None \<Rightarrow> Return (Inl (ProtocolErrorf
                               ''bad line count %q in line %q (split into %#v)''
                               [Str (gs ! 7), Str line, Strs gs]))
                           | Some l \<Rightarrow> Return (Inr (overview\<lparr>Lines := l\<rparr>))))))"

lemma ReadString_shorter:
  "ReadString d b = (l, None, b') \<Longrightarrow> length (pending b') < length (pending b)"
  by (auto simp: ReadString_def split: option.splits dest: cutLine_length)

text \<open>\<open>parseOverview parseDate r result\<close> is the loop of \<^verbatim>\<open>parseOverview\<close> with \<open>result\<close> the
  overviews read so far; it also returns the reader as the loop leaves it.\<close>

function parseOverview ::
  "(string \<Rightarrow> 't option) \<Rightarrow> Reader \<Rightarrow> 't MessageOverview list \<Rightarrow>
     ((error + 't MessageOverview list) \<times> Reader) exec" where
  "parseOverview parseDate r result =
     (case ReadString LF r of
        (line, Some err, r') \<Rightarrow>
          if err = IOError EOF \<or> err = IOError ErrUnexpectedEOF then Return (Inr result, r')
          else Return (Inl err, r')
      | (line, None, r') \<Rightarrow>
          let line = (if HasSuffix line [CR, LF] then take (length line - 2) line
                      else if HasSuffix line [LF] then take (length line - 1) line
                      else line)
          in if line = ''.'' then Return (Inr result, r')
             else
               (case overviewLine parseDate line of
                  Panic m \<Rightarrow> Panic m
                | Return (Inl e) \<Rightarrow> Return (Inl e, r')
                | Return (Inr overview) \<Rightarrow> parseOverview parseDate r' (result @ [overview])))"
  by pat_completeness auto
termination
  by (relation "measure (\<lambda>(parseDate, r, result). length (pending r))")
     (auto dest: ReadString_shorter [OF sym])

declare parseOverview.simps [simp del]

section \<open>GROUP\<close>

record Group =
  Name :: string
  Count :: int
  High :: int
  Low :: int
  Status :: string

text \<open>The result is the pair the Go function returns: the pointer \<^verbatim>\<open>status\<close>, \<open>None\<close> when it
  is \<^verbatim>\<open>nil\<close>, and the error.\<close>

definition parseGroupStatus :: "string \<Rightarrow> Group option \<times> error option" where
  "parseGroupStatus line =
     (let ss = SplitN line SP 4
      in if length ss < 3 then (None, Some (ProtocolError (''bad group response: '' @ line)))
         else
           (case ParseInt (ss ! 0) of
              None \<Rightarrow> (None, Some (ProtocolError (''bad group response: '' @ line)))
            | Some n0 \<Rightarrow>
                (case ParseInt (ss ! 1) of
                   None \<Rightarrow> (None, Some (ProtocolError (''bad group response: '' @ line)))
                 | Some n1 \<Rightarrow>
                     (case ParseInt (ss ! 2) of
                        None \<Rightarrow> (None, Some (ProtocolError (''bad group response: '' @ line)))
                      | Some n2 \<Rightarrow>
                          (Some \<lparr>Name = [], Count = n0, High = n2, Low = n1, Status = []\<rparr>,
                           None)))))"

text \<open>\<^verbatim>\<open>Conn.Group\<close>. Assigning \<^verbatim>\<open>status.Name\<close> through a nil pointer panics.\<close>

definition Conn_Group :: "string \<Rightarrow> Conn \<Rightarrow> (Group option \<times> error option \<times> Conn) exec" where
  "Conn_Group name c =
     (case cmd 211 (''GROUP '' @ name) c of
        Panic m \<Rightarrow> Panic m
      | Return (_, line, Some err, c') \<Rightarrow> Return (None, Some err, c')
      | Return (_, line, None, c') \<Rightarrow>
          (case parseGroupStatus line of
             (status, Some err) \<Rightarrow>
               (case status of
                  None \<Rightarrow> Panic ''nil pointer dereference''
                | Some g \<Rightarrow> Return (Some (g\<lparr>Name := name\<rparr>), Some err, c'))
           | (status, None) \<Rightarrow> Return (status, None, c')))"

section \<open>Overview\<close>

text \<open>
  The decoders are not in this file. \<open>xz\<close> stands for the yEnc reader with the DEFLATE reader
  on top of it: from the connection's reader it gives the decoded stream and the connection's
  reader behind the encoded block. \<open>zl\<close> stands for \<^verbatim>\<open>newZlibDotResponse\<close>: the error of the
  constructor, the decoded stream, the connection's reader behind the block, and the error
  of \<^verbatim>\<open>Close\<close>. How far a decoder has read when \<open>parseOverview\<close> stops before the end of the
  decoded stream is not known here: the connection's reader is then taken behind the block
  as well. When \<^verbatim>\<open>parseXzver\<close> cannot read the line behind the block, Go returns the overviews
  together with the error; the result here is the error.
\<close>

type_synonym xzdecoder = "Reader \<Rightarrow> Reader \<times> Reader"
type_synonym zlibdecoder = "Reader \<Rightarrow> error option \<times> Reader \<times> Reader \<times> error option"

definition parseXzver ::
  "(string \<Rightarrow> 't option) \<Rightarrow> xzdecoder \<Rightarrow> Conn \<Rightarrow> ((error + 't MessageOverview list) \<times> Conn) exec"
  where
  "parseXzver parseDate xz c =
     (case xz (rd c) of (plain, behind) \<Rightarrow>
        (case parseOverview parseDate plain [] of
           Panic m \<Rightarrow> Panic m
         | Return (Inl err, _) \<Rightarrow> Return (Inl err, c\<lparr>rd := behind\<rparr>)
         | Return (Inr result, _) \<Rightarrow>
             (case ReadString LF behind of
                (line, Some err, r') \<Rightarrow> Return (Inl err, c\<lparr>rd := r'\<rparr>)
              | (line, None, r') \<Rightarrow>
                  if TrimRight_crlf line \<noteq> ''.''
                  then Return (Inl (Errorf ''unexpected data after XZVER: %q'' [Str line]),
                               c\<lparr>rd := r'\<rparr>)
                  else Return (Inr result, c\<lparr>rd := r'\<rparr>))))"

text \<open>The end of \<^verbatim>\<open>Overview\<close>, from the test of the response line for the marker of
  compression.\<close>

definition Overview_data ::
  "(string \<Rightarrow> 't option) \<Rightarrow> zlibdecoder \<Rightarrow> string \<Rightarrow> Conn \<Rightarrow>
     ((error + 't MessageOverview list) \<times> Conn) exec" where
  "Overview_data parseDate zl line c =
     (if Contains line ''[COMPRESS=GZIP]'' then
        (case zl (rd c) of
           (Some err, _, behind, _) \<Rightarrow> Return (Inl err, c\<lparr>rd := behind\<rparr>)
         | (None, plain, behind, closeErr) \<Rightarrow>
             (case parseOverview parseDate plain [] of
                Panic m \<Rightarrow> Panic m
              | Return (Inl err, _) \<Rightarrow> Return (Inl err, c\<lparr>rd := behind\<rparr>)
              | Return (Inr msgs, _) \<Rightarrow>
                  (case closeErr of
                     Some err \<Rightarrow> Return (Inl err, c\<lparr>rd := behind\<rparr>)
                   | None \<Rightarrow> Return (Inr msgs, c\<lparr>rd := behind\<rparr>))))
      else
        (case parseOverview parseDate (rd c) [] of
           Panic m \<Rightarrow> Panic m
         | Return (res, r') \<Rightarrow> Return (res, c\<lparr>rd := r'\<rparr>)))"

definition rangeArg :: "int \<Rightarrow> int \<Rightarrow> string" where
  "rangeArg from_n to_n = Itoa from_n @ ''-'' @ Itoa to_n"

text \<open>The middle of \<^verbatim>\<open>Overview\<close>: OVER, and XOVER when OVER is answered with 500.\<close>

definition Overview_OVER ::
  "(string \<Rightarrow> 't option) \<Rightarrow> zlibdecoder \<Rightarrow> int \<Rightarrow> int \<Rightarrow> Conn \<Rightarrow>
     ((error + 't MessageOverview list) \<times> Conn) exec" where
  "Overview_OVER parseDate zl from_n to_n c =
     (case cmd 224 (''OVER '' @ rangeArg from_n to_n) c of
        Panic m \<Rightarrow> Panic m
      | Return (_, line, None, c1) \<Rightarrow> Overview_data parseDate zl line c1
      | Return (_, line, Some err, c1) \<Rightarrow>
          (case err of
             Error code msg \<Rightarrow>
               if code = 500 then
                 (case cmd 224 (''XOVER '' @ rangeArg from_n to_n) c1 of
                    Panic m \<Rightarrow> Panic m
                  | Return (_, xline, Some xerr, c2) \<Rightarrow> Return (Inl err, c2)
                  | Return (_, xline, None, c2) \<Rightarrow> Overview_data parseDate zl xline c2)
               else Return (Inl err, c1)
           | _ \<Rightarrow> Return (Inl err, c1)))"

definition Overview ::
  "(string \<Rightarrow> 't option) \<Rightarrow> xzdecoder \<Rightarrow> zlibdecoder \<Rightarrow> int \<Rightarrow> int \<Rightarrow> Conn \<Rightarrow>
     ((error + 't MessageOverview list) \<times> Conn) exec" where
  "Overview parseDate xz zl from_n to_n c =
     (if \<not> xzverUnsupported c \<or> xzverSupported c then
        (case cmd 224 (''XZVER '' @ rangeArg from_n to_n) c of
           Panic m \<Rightarrow> Panic m
         | Return (_, _, Some xzerr, c1) \<Rightarrow>
             Overview_OVER parseDate zl from_n to_n (c1\<lparr>xzverUnsupported := True\<rparr>)
         | Return (_, _, None, c1) \<Rightarrow> parseXzver parseDate xz (c1\<lparr>xzverSupported := True\<rparr>))
      else Overview_OVER parseDate zl from_n to_n c)"

section \<open>Posting\<close>

text \<open>
  The loop of \<^verbatim>\<open>RawPost\<close>: \<open>src\<close> is the buffered reader over the article. Each line goes out
  with a dot in front of it when it starts with one, and with CRLF in place of its LF.
\<close>

function RawPost_loop :: "Reader \<Rightarrow> Conn \<Rightarrow> error option \<times> Conn" where
  "RawPost_loop src c =
     (case ReadString LF src of
        (line, err, src') \<Rightarrow>
          if err \<noteq> None \<and> err \<noteq> Some (IOError EOF) then (err, c)
          else
            let eof = (err = Some (IOError EOF))
            in if eof \<and> length line = 0 then (None, c)
               else
                 let line = (if HasSuffix line [LF] then take (length line - 1) line else line);
                     prefix = (if HasPrefix line ''.'' then ''.'' else [])
                 in (case Fprintf (prefix @ line @ [CR, LF]) c of
                       (Some e, c') \<Rightarrow> (Some e, c')
                     | (None, c') \<Rightarrow> if eof then (None, c') else RawPost_loop src' c'))"
  by pat_completeness auto
termination
  by (relation "measure (\<lambda>(src, c). length (pending src))")
     (auto simp: ReadString_def split: option.splits prod.splits dest: cutLine_length)

declare RawPost_loop.simps [simp del]

definition RawPost :: "Reader \<Rightarrow> Conn \<Rightarrow> (error option \<times> Conn) exec" where
  "RawPost src c =
     (case cmd 3 ''POST'' c of
        Panic m \<Rightarrow> Panic m
      | Return (_, _, Some err, c1) \<Rightarrow> Return (Some err, c1)
      | Return (_, _, None, c1) \<Rightarrow>
          (case RawPost_loop src c1 of
             (Some err, c2) \<Rightarrow> Return (Some err, c2)
           | (None, c2) \<Rightarrow>
               (case cmd 240 ''.'' c2 of
                  Panic m \<Rightarrow> Panic m
                | Return (_, _, err, c3) \<Rightarrow> Return (err, c3))))"

section \<open>Article headers\<close>

text \<open>
  \<^verbatim>\<open>ReadSlice\<close> returns a line only if it fits the buffer of the reader; \<open>n\<close> is the size of
  that buffer (4096 for the readers that \<^verbatim>\<open>Article\<close> and \<^verbatim>\<open>Head\<close> make). A longer line gives the
  full buffer and \<open>ErrBufferFull\<close>.
\<close>

definition ReadSlice :: "nat \<Rightarrow> char \<Rightarrow> Reader \<Rightarrow> string \<times> error option \<times> Reader" where
  "ReadSlice n delim b =
     (case cutLine delim (take n (pending b)) of
        Some (l, _) \<Rightarrow> (l, None, b\<lparr>pending := drop (length l) (pending b)\<rparr>)
      | None \<Rightarrow>
          if n \<le> length (pending b)
          then (take n (pending b), Some (IOError ErrBufferFull), b\<lparr>pending := drop n (pending b)\<rparr>)
          else (pending b, Some (IOError (fin b)), b\<lparr>pending := []\<rparr>))"

definition chop :: "string \<Rightarrow> string" where
  "chop p = rev (dropWhile (\<lambda>c. c = CR \<or> c = HT \<or> c = LF) (rev p))"

definition readLineBytes :: "nat \<Rightarrow> Reader \<Rightarrow> string \<times> error option \<times> Reader" where
  "readLineBytes n b =
     (case ReadSlice n LF b of
        (p, Some err, b') \<Rightarrow>
          ([], Some (if err = IOError EOF then IOError ErrUnexpectedEOF else err), b')
      | (p, None, b') \<Rightarrow> (chop p, None, b'))"

lemma cutLine_split:
  "cutLine d s = Some (l, rest) \<Longrightarrow> s = l @ rest \<and> (\<exists>y. l = y @ [d] \<and> d \<notin> set y)"
proof (induction s arbitrary: l rest)
  case Nil
  then show ?case by simp
next
  case (Cons c s)
  show ?case
  proof (cases "c = d")
    case True
    with Cons.prems show ?thesis by auto
  next
    case False
    with Cons.prems obtain l' where c: "cutLine d s = Some (l', rest)" and l: "l = c # l'"
      by (auto split: option.splits)
    from Cons.IH [OF c] obtain y where "s = l' @ rest" "l' = y @ [d]" "d \<notin> set y" by blast
    with l False have "c # s = l @ rest \<and> l = (c # y) @ [d] \<and> d \<notin> set (c # y)" by simp
    then show ?thesis by blast
  qed
qed

lemma ReadSlice_line:
  assumes "ReadSlice n d b = (p, None, b')"
  shows "pending b = p @ pending b'" and "\<exists>y. p = y @ [d] \<and> d \<notin> set y" and "length p \<le> n"
    and "b' = b\<lparr>pending := pending b'\<rparr>"
proof -
  from assms obtain rest where c: "cutLine d (take n (pending b)) = Some (p, rest)"
    and b': "b' = b\<lparr>pending := drop (length p) (pending b)\<rparr>"
    by (auto simp: ReadSlice_def split: option.splits if_splits)
  from cutLine_split [OF c] have t: "take n (pending b) = p @ rest"
    and y: "\<exists>y. p = y @ [d] \<and> d \<notin> set y" by simp_all
  from t have "length p \<le> length (take n (pending b))" by simp
  then show n: "length p \<le> n" by simp
  from t have "take (length p) (take n (pending b)) = p" by simp
  with n have "take (length p) (pending b) = p" by (simp add: min_def)
  then have "pending b = p @ drop (length p) (pending b)"
    by (metis append_take_drop_id)
  with b' show "pending b = p @ pending b'" by simp
  from y show "\<exists>y. p = y @ [d] \<and> d \<notin> set y" .
  from b' show "b' = b\<lparr>pending := pending b'\<rparr>" by simp
qed

lemma readLineBytes_line:
  assumes "readLineBytes n b = (line, None, b')"
  shows "\<exists>p. ReadSlice n LF b = (p, None, b') \<and> line = chop p"
  using assms by (auto simp: readLineBytes_def split: prod.splits option.splits)

lemma readLineBytes_shorter:
  assumes "readLineBytes n b = (line, None, b')"
  shows "length (pending b') < length (pending b)"
proof -
  from readLineBytes_line [OF assms] obtain p where "ReadSlice n LF b = (p, None, b')" by blast
  from ReadSlice_line(1,2) [OF this] show ?thesis by auto
qed

lemma dropWhile_Cons_shorter: "dropWhile P xs = d # ds \<Longrightarrow> length ds < length xs"
  using length_dropWhile_le [of P xs] by simp

definition blank :: "char \<Rightarrow> bool" where
  "blank c = (c = SP \<or> c = HT)"

text \<open>
  The loop of \<^verbatim>\<open>readKeyValue\<close> that looks for extension lines. \<^verbatim>\<open>ReadByte\<close> followed by
  \<^verbatim>\<open>UnreadByte\<close> leaves the reader as it was. When \<^verbatim>\<open>ReadByte\<close> fails with an error other than
  \<open>EOF\<close>, \<^verbatim>\<open>UnreadByte\<close> is called all the same and puts back the last byte that was read, the
  LF of the line before. The inner loop reads bytes until one is neither a space nor a tab,
  and that one is unread.
\<close>

function readExtension ::
  "nat \<Rightarrow> Reader \<Rightarrow> string \<Rightarrow> string \<Rightarrow> string \<times> string \<times> error option \<times> Reader" where
  "readExtension n b key val =
     (case pending b of
        [] \<Rightarrow> (key, val, None, if fin b \<noteq> EOF then b\<lparr>pending := [LF]\<rparr> else b)
      | c # cs \<Rightarrow>
          if c \<noteq> SP \<and> c \<noteq> HT then (key, val, None, b)
          else
            (case dropWhile blank cs of
               [] \<Rightarrow> ([], [],
                      Some (IOError (if fin b = EOF then ErrUnexpectedEOF else fin b)),
                      b\<lparr>pending := []\<rparr>)
             | d # ds \<Rightarrow>
                 (case readLineBytes n (b\<lparr>pending := d # ds\<rparr>) of
                    (line, Some e, b') \<Rightarrow> ([], [], Some e, b')
                  | (line, None, b') \<Rightarrow> readExtension n b' key (val @ '' '' @ line))))"
  by pat_completeness auto
termination
  apply (relation "measure (\<lambda>(n, b, key, val). length (pending b))")
   apply simp
  apply (auto dest!: readLineBytes_shorter [OF sym] dropWhile_Cons_shorter)
  done

declare readExtension.simps [simp del]

fun Index :: "string \<Rightarrow> char \<Rightarrow> nat option" where
  "Index [] c = None"
| "Index (x # xs) c = (if x = c then Some 0 else map_option Suc (Index xs c))"

definition readKeyValue :: "nat \<Rightarrow> Reader \<Rightarrow> string \<times> string \<times> error option \<times> Reader" where
  "readKeyValue n b =
     (case readLineBytes n b of
        (line, Some e, b1) \<Rightarrow>
          if e = IOError ErrUnexpectedEOF then ([], [], None, b1) else ([], [], Some e, b1)
      | (line, None, b1) \<Rightarrow>
          if length line = 0 then ([], [], None, b1)
          else
            (case Index line (CHR '':'') of
               None \<Rightarrow> ([], [], Some (ProtocolError (''malformed header line: '' @ line)), b1)
             | Some i \<Rightarrow>
                 let key = take i line
                 in if SP \<in> set key
                    then ([], [], Some (ProtocolError (''malformed header line: '' @ line)), b1)
                    else readExtension n b1 key (dropWhile blank (drop (Suc i) line))))"

lemma readExtension_pending:
  "readExtension n b key val = (k, v, None, b') \<Longrightarrow> length (pending b') \<le> Suc (length (pending b))"
proof (induction n b key val rule: readExtension.induct)
  case (1 n b key val)
  show ?case
  proof (cases "pending b")
    case Nil
    with "1.prems" show ?thesis by (auto simp: readExtension.simps [of n b] split: if_splits)
  next
    case (Cons c cs)
    show ?thesis
    proof (cases "c \<noteq> SP \<and> c \<noteq> HT")
      case True
      with Cons "1.prems" show ?thesis by (simp add: readExtension.simps [of n b])
    next
      case False
      show ?thesis
      proof (cases "dropWhile blank cs")
        case Nil
        with Cons False "1.prems" show ?thesis
          by (auto simp: readExtension.simps [of n b] simp del: dropWhile_eq_Nil_conv)
      next
        case (Cons d ds)
        obtain line eo b1 where rl: "readLineBytes n (b\<lparr>pending := d # ds\<rparr>) = (line, eo, b1)"
          by (cases "readLineBytes n (b\<lparr>pending := d # ds\<rparr>)") auto
        show ?thesis
        proof (cases eo)
          case (Some e)
          with \<open>pending b = c # cs\<close> False Cons rl "1.prems" show ?thesis
            by (auto simp: readExtension.simps [of n b])
        next
          case None
          with \<open>pending b = c # cs\<close> False Cons rl "1.prems"
          have r: "readExtension n b1 key (val @ '' '' @ line) = (k, v, None, b')"
            by (auto simp: readExtension.simps [of n b])
          from "1.IH" [OF \<open>pending b = c # cs\<close> False Cons rl [symmetric] refl None r]
          have "length (pending b') \<le> Suc (length (pending b1))" by simp
          moreover from readLineBytes_shorter [OF rl [unfolded None]]
          have "length (pending b1) < length (dropWhile blank cs)" using Cons by simp
          moreover have "length (dropWhile blank cs) \<le> length cs" by (rule length_dropWhile_le)
          ultimately show ?thesis using \<open>pending b = c # cs\<close> by simp
        qed
      qed
    qed
  qed
qed

lemma Index_Some: "Index xs c = Some i \<Longrightarrow> i < length xs"
  by (induction xs arbitrary: i) (auto split: if_splits)

lemma length_chop_line: "length (chop (y @ [LF])) \<le> length y"
  unfolding chop_def by (simp add: length_dropWhile_le [of _ "rev y", simplified])

lemma readKeyValue_shorter:
  assumes "readKeyValue n b = (key, val, None, b')" and "key \<noteq> []"
  shows "length (pending b') < length (pending b)"
proof -
  obtain line eo b1 where rl: "readLineBytes n b = (line, eo, b1)"
    by (cases "readLineBytes n b") auto
  from assms rl obtain i where eo: "eo = None" and i: "Index line (CHR '':'') = Some i"
    and ext: "readExtension n b1 (take i line) (dropWhile blank (drop (Suc i) line)) = (key, val, None, b')"
    by (auto simp: readKeyValue_def Let_def split: option.splits if_splits)
  from readLineBytes_line [OF rl [unfolded eo]] obtain p
    where sl: "ReadSlice n LF b = (p, None, b1)" and line: "line = chop p" by blast
  from ReadSlice_line(1,2) [OF sl] obtain y where pb: "pending b = p @ pending b1"
    and p: "p = y @ [LF]" by blast
  from Index_Some [OF i] line p length_chop_line [of y] have "1 \<le> length y" by simp
  with pb p have "Suc (length (pending b1)) < length (pending b)" by (cases y) auto
  with readExtension_pending [OF ext] show ?thesis by simp
qed

text \<open>
  \<^verbatim>\<open>http.CanonicalHeaderKey\<close> belongs to the standard library and has changed with its
  versions: it is the parameter \<open>canon\<close>. \<open>readHeader canon n r header\<close> is the loop of
  \<^verbatim>\<open>readHeader\<close> with \<open>header\<close> the map built so far; the result is the map \<^verbatim>\<open>res.Header\<close>.
\<close>

function readHeader ::
  "(string \<Rightarrow> string) \<Rightarrow> nat \<Rightarrow> Reader \<Rightarrow> (string \<rightharpoonup> string list) \<Rightarrow>
     (error + (string \<rightharpoonup> string list)) \<times> Reader" where
  "readHeader canon n r header =
     (case readKeyValue n r of
        (key, val, Some err, r') \<Rightarrow> (Inl err, r')
      | (key, val, None, r') \<Rightarrow>
          if key = [] then (Inr header, r')
          else
            let key = canon key
            in (case header key of
                  Some oldvalue \<Rightarrow> readHeader canon n r' (header(key \<mapsto> oldvalue @ [val]))
                | None \<Rightarrow> readHeader canon n r' (header(key \<mapsto> [val]))))"
  by pat_completeness auto
termination
  by (relation "measure (\<lambda>(canon, n, r, header). length (pending r))")
     (auto dest!: readKeyValue_shorter [OF sym])

declare readHeader.simps [simp del]

section \<open>Lists of lines and of groups\<close>

text \<open>\<open>readStrings r sv\<close> is the loop of \<^verbatim>\<open>readStrings\<close> with \<open>sv\<close> the lines read so far; it
  also returns the reader as the loop leaves it. At \<open>EOF\<close> the loop ends without an error;
  with another error the list returned is nil.\<close>

function readStrings :: "Reader \<Rightarrow> string list \<Rightarrow> string list \<times> error option \<times> Reader" where
  "readStrings r sv =
     (case ReadString LF r of
        (line, Some err, r') \<Rightarrow>
          if err = IOError EOF then (sv, None, r') else ([], Some err, r')
      | (line, None, r') \<Rightarrow>
          let line = (if HasSuffix line [CR, LF] then take (length line - 2) line
                      else if HasSuffix line [LF] then take (length line - 1) line
                      else line)
          in if line = ''.'' then (sv, None, r') else readStrings r' (sv @ [line]))"
  by pat_completeness auto
termination
  by (relation "measure (\<lambda>(r, sv). length (pending r))")
     (auto dest: ReadString_shorter [OF sym])

declare readStrings.simps [simp del]

text \<open>\<open>parseGroups lines res\<close> is the loop of \<^verbatim>\<open>parseGroups\<close> with \<open>res\<close> the groups made so
  far.\<close>

fun parseGroups :: "string list \<Rightarrow> Group list \<Rightarrow> error + Group list" where
  "parseGroups [] res = Inr res"
| "parseGroups (line # lines) res =
     (let ss = SplitN (TrimSpace line) SP 4
      in if length ss < 4 then Inl (ProtocolError (''short group info line: '' @ line))
         else
           (case ParseInt (ss ! 1) of
              None \<Rightarrow> Inl (ProtocolError (''bad number in line: '' @ line))
            | Some high \<Rightarrow>
                (case ParseInt (ss ! 2) of
                   None \<Rightarrow> Inl (ProtocolError (''bad number in line: '' @ line))
                 | Some low \<Rightarrow>
                     parseGroups lines
                       (res @ [\<lparr>Name = ss ! 0, Count = 0, High = high, Low = low,
                                Status = ss ! 3\<rparr>]))))"

text \<open>
  \<^verbatim>\<open>readGroups\<close>. In the branch of a compressed answer \<^verbatim>\<open>err\<close> is a new variable of that
  block: the errors of the decoder and of \<^verbatim>\<open>readStrings\<close> stay in it, and the function goes
  on to \<^verbatim>\<open>parseGroups\<close> with the lines it has, none after an error. The connection's reader
  is left behind the compressed block, as in \<open>Overview_data\<close>.
\<close>

definition readGroups :: "zlibdecoder \<Rightarrow> string \<Rightarrow> Conn \<Rightarrow> (error + Group list) \<times> Conn" where
  "readGroups zl line c =
     (if Contains line ''[COMPRESS=GZIP]'' then
        (case zl (rd c) of
           (Some err, _, behind, _) \<Rightarrow> (parseGroups [] [], c\<lparr>rd := behind\<rparr>)
         | (None, plain, behind, _) \<Rightarrow>
             (case readStrings plain [] of
                (lines, _, _) \<Rightarrow> (parseGroups lines [], c\<lparr>rd := behind\<rparr>)))
      else
        (case readStrings (rd c) [] of
           (lines, Some err, r') \<Rightarrow> (Inl err, c\<lparr>rd := r'\<rparr>)
         | (lines, None, r') \<Rightarrow> (parseGroups lines [], c\<lparr>rd := r'\<rparr>)))"

section \<open>Quit\<close>

text \<open>\<^verbatim>\<open>Quit\<close> marks the connection as closed whatever the answer to its command is.\<close>

definition Quit :: "Conn \<Rightarrow> (error option \<times> Conn) exec" where
  "Quit c =
     (case cmd 0 ''QUIT'' c of
        Panic m \<Rightarrow> Panic m
      | Return (_, _, err, c') \<Rightarrow> Return (err, c'\<lparr>close := True\<rparr>))"

section \<open>Sessions\<close>

text \<open>
  A session is a sequence of calls on one connection; \<open>step\<close> keeps the connection that a
  call leaves and drops its results. The calls are what the methods of \<^verbatim>\<open>Conn\<close> do to the
  connection:

    \<^item> \<open>Cmd\<close>, a command through \<open>cmd\<close>, with any expected code and any command line: the
      methods with a one-line answer (\<^verbatim>\<open>ModeReader\<close>, \<^verbatim>\<open>Date\<close>, \<^verbatim>\<open>EnableCompression\<close>, \<^verbatim>\<open>Stat\<close>,
      \<^verbatim>\<open>Last\<close>, \<^verbatim>\<open>Next\<close>, and the one or two commands of \<^verbatim>\<open>Authenticate\<close>);

    \<^item> \<open>Body\<close>, the new body reader that \<^verbatim>\<open>Help\<close>, \<^verbatim>\<open>ArticleText\<close>, \<^verbatim>\<open>HeadText\<close> and \<^verbatim>\<open>Body\<close>
      return after their command, and \<open>ReadBody\<close>, one \<^verbatim>\<open>Read\<close> on the body reader of the
      connection, by the caller or by the buffered reader that \<^verbatim>\<open>Article\<close>, \<^verbatim>\<open>Head\<close> and
      \<^verbatim>\<open>ListGroup\<close> put on it;

    \<^item> \<open>GetLines\<close>, a command followed, when it is accepted, by \<^verbatim>\<open>readStrings\<close> on the reader of the
      connection (\<^verbatim>\<open>Capabilities\<close>, \<^verbatim>\<open>ListExtensions\<close>, \<^verbatim>\<open>NewNews\<close>), and \<open>GetGroups\<close>, a command
      followed, when it is accepted, by \<^verbatim>\<open>readGroups\<close> (\<^verbatim>\<open>List\<close>, \<^verbatim>\<open>NewGroups\<close>);

    \<^item> \<open>SelectGroup\<close> (\<^verbatim>\<open>Group\<close>), \<open>GetOverview\<close> (\<^verbatim>\<open>Overview\<close>), \<open>Post\<close> (\<^verbatim>\<open>RawPost\<close>, with the buffered
      reader over the article) and \<open>Close\<close> (\<^verbatim>\<open>Quit\<close>).

  \<^verbatim>\<open>Trace\<close>, which replaces the writer and resets the reader, is not among them.
\<close>

datatype call =
    Cmd nat string
  | Body
  | ReadBody nat
  | GetLines nat string
  | GetGroups nat string
  | SelectGroup string
  | GetOverview int int
  | Post Reader
  | Close

fun step ::
  "(string \<Rightarrow> 't option) \<Rightarrow> xzdecoder \<Rightarrow> zlibdecoder \<Rightarrow> call \<Rightarrow> Conn \<Rightarrow> Conn exec" where
  "step parseDate xz zl (Cmd expectCode command) c =
     (case cmd expectCode command c of Panic m \<Rightarrow> Panic m | Return (_, _, _, c') \<Rightarrow> Return c')"
| "step parseDate xz zl Body c = Return (body c)"
| "step parseDate xz zl (ReadBody n) c =
     (case br c of
        None \<Rightarrow> Return c
      | Some r \<Rightarrow>
          (case Read n r (rd c) of
             Panic m \<Rightarrow> Panic m
           | Return (_, _, r', cr') \<Rightarrow> Return (c\<lparr>rd := cr', br := Some r'\<rparr>)))"
| "step parseDate xz zl (GetLines expectCode command) c =
     (case cmd expectCode command c of
        Panic m \<Rightarrow> Panic m
      | Return (_, _, Some err, c') \<Rightarrow> Return c'
      | Return (_, _, None, c') \<Rightarrow>
          (case readStrings (rd c') [] of (_, _, r') \<Rightarrow> Return (c'\<lparr>rd := r'\<rparr>)))"
| "step parseDate xz zl (GetGroups expectCode command) c =
     (case cmd expectCode command c of
        Panic m \<Rightarrow> Panic m
      | Return (_, line, Some err, c') \<Rightarrow> Return c'
      | Return (_, line, None, c') \<Rightarrow> Return (snd (readGroups zl line c')))"
| "step parseDate xz zl (SelectGroup name) c =
     (case Conn_Group name c of Panic m \<Rightarrow> Panic m | Return (_, _, c') \<Rightarrow> Return c')"
| "step parseDate xz zl (GetOverview from_n to_n) c =
     (case Overview parseDate xz zl from_n to_n c of
        Panic m \<Rightarrow> Panic m
      | Return (_, c') \<Rightarrow> Return c')"
| "step parseDate xz zl (Post src) c =
     (case RawPost src c of Panic m \<Rightarrow> Panic m | Return (_, c') \<Rightarrow> Return c')"
| "step parseDate xz zl Close c =
     (case Quit c of Panic m \<Rightarrow> Panic m | Return (_, c') \<Rightarrow> Return c')"

fun run ::
  "(string \<Rightarrow> 't option) \<Rightarrow> xzdecoder \<Rightarrow> zlibdecoder \<Rightarrow> call list \<Rightarrow> Conn \<Rightarrow> Conn exec" where
  "run parseDate xz zl [] c = Return c"
| "run parseDate xz zl (x # xs) c =
     (case step parseDate xz zl x c of
        Panic m \<Rightarrow> Panic m
      | Return c' \<Rightarrow> run parseDate xz zl xs c')"

section \<open>The status code a command expects\<close>

lemma decimal_bound:
  "decimal acc s = Some n \<Longrightarrow> 0 \<le> acc \<Longrightarrow> 0 \<le> n \<and> n < (acc + 1) * 10 ^ length s"
proof (induction s arbitrary: acc)
  case Nil
  then show ?case by simp
next
  case (Cons c cs)
  from Cons.prems obtain d where d: "digit c = Some d" and r: "decimal (10 * acc + d) cs = Some n"
    by (auto split: option.splits)
  from d have d9: "0 \<le> d \<and> d \<le> 9" by (auto simp: digit_def Let_def split: if_splits)
  with Cons.prems have "0 \<le> 10 * acc + d" by simp
  from Cons.IH [OF r this] have *: "0 \<le> n" "n < (10 * acc + d + 1) * 10 ^ length cs" by simp_all
  have le: "(10 * acc + d + 1) * 10 ^ length cs \<le> (10 * acc + 10) * 10 ^ length cs"
    using d9 by (intro mult_right_mono) simp_all
  have eq: "(10 * acc + 10) * 10 ^ length cs = (acc + 1) * 10 ^ length (c # cs)"
    by (simp add: algebra_simps)
  from *(2) le have "n < (10 * acc + 10) * 10 ^ length cs" by (rule less_le_trans)
  then have "n < (acc + 1) * 10 ^ length (c # cs)" unfolding eq .
  with *(1) show ?case by blast
qed

lemma ParseUint_3: "ParseUint (take 3 l) = Some C \<Longrightarrow> C \<le> 999"
proof -
  assume a: "ParseUint (take 3 l) = Some C"
  then obtain n where n: "decimal 0 (take 3 l) = Some n" and C: "C = nat n"
    by (auto simp: ParseUint_def split: if_splits option.splits)
  from decimal_bound [OF n] have "0 \<le> n" "n < 10 ^ length (take 3 l)" by simp_all
  moreover have "(10::int) ^ length (take 3 l) \<le> 10 ^ 3"
    by (rule power_increasing) simp_all
  ultimately have "n < 1000" by simp
  with C show ?thesis by simp
qed

lemma cmd_status:
  assumes "\<not> close c" and "drain c = Return (None, c1)" and "werr c1 = None"
    and "ReadString LF (rd c1) = (raw, None, cr)"
    and "4 \<le> length (TrimSpace raw)" and "TrimSpace raw ! 3 = SP"
    and "ParseUint (take 3 (TrimSpace raw)) = Some C"
  shows "cmd E command c =
     Return (C, drop 4 (TrimSpace raw),
       (if 1 \<le> E \<and> E < 10 \<and> C div 100 \<noteq> E \<or> 10 \<le> E \<and> E < 100 \<and> C div 10 \<noteq> E \<or>
           100 \<le> E \<and> E < 1000 \<and> C \<noteq> E
        then Some (Error C (drop 4 (TrimSpace raw))) else None),
       c1\<lparr>wr := wr c1 @ [command @ [CR, LF]], rd := cr\<rparr>)"
  using assms by (simp add: cmd_def Fprintf_def Let_def)

text \<open>
  C1. Whenever \<open>cmd\<close> gets as far as a well-formed status line (at least four characters,
  the fourth a space, the first three a number \<open>C\<close>), it returns \<open>C\<close> and the text after the
  code, and \<open>C\<close> is at most 999. With an expected code \<open>E\<close> from 1 to 9 there is no error
  exactly when \<open>C div 100 = E\<close>, from 10 to 99 exactly when \<open>C div 10 = E\<close>, from 100 to 999
  exactly when \<open>C = E\<close>, and with 0 never; an error is \<open>Error C text\<close>. So 2 accepts 200 to
  299, 22 accepts 220 to 229 and 211 accepts 211 alone.
\<close>

theorem cmd_expectCode:
  assumes "\<not> close c" and "drain c = Return (None, c1)" and "werr c1 = None"
    and "ReadString LF (rd c1) = (raw, None, cr)"
    and "4 \<le> length (TrimSpace raw)" and "TrimSpace raw ! 3 = SP"
    and "ParseUint (take 3 (TrimSpace raw)) = Some C"
  shows "C \<le> 999 \<and>
    (\<exists>err. cmd E command c =
        Return (C, drop 4 (TrimSpace raw), err, c1\<lparr>wr := wr c1 @ [command @ [CR, LF]], rd := cr\<rparr>) \<and>
      (err = None \<or> err = Some (Error C (drop 4 (TrimSpace raw)))) \<and>
      (1 \<le> E \<and> E \<le> 9 \<longrightarrow> (err = None \<longleftrightarrow> C div 100 = E)) \<and>
      (10 \<le> E \<and> E \<le> 99 \<longrightarrow> (err = None \<longleftrightarrow> C div 10 = E)) \<and>
      (100 \<le> E \<and> E \<le> 999 \<longrightarrow> (err = None \<longleftrightarrow> C = E)) \<and>
      (E = 0 \<longrightarrow> err = None) \<and>
      (E = 2 \<longrightarrow> (err = None \<longleftrightarrow> 200 \<le> C \<and> C \<le> 299)) \<and>
      (E = 22 \<longrightarrow> (err = None \<longleftrightarrow> 220 \<le> C \<and> C \<le> 229)) \<and>
      (E = 211 \<longrightarrow> (err = None \<longleftrightarrow> C = 211)))"
proof
  show "C \<le> 999" using assms(7) by (rule ParseUint_3)
next
  let ?err = "if 1 \<le> E \<and> E < 10 \<and> C div 100 \<noteq> E \<or> 10 \<le> E \<and> E < 100 \<and> C div 10 \<noteq> E \<or>
           100 \<le> E \<and> E < 1000 \<and> C \<noteq> E
        then Some (Error C (drop 4 (TrimSpace raw))) else None"
  have run: "cmd E command c =
     Return (C, drop 4 (TrimSpace raw), ?err, c1\<lparr>wr := wr c1 @ [command @ [CR, LF]], rd := cr\<rparr>)"
    using assms by (rule cmd_status)
  have a: "?err = None \<or> ?err = Some (Error C (drop 4 (TrimSpace raw)))" by simp
  have b: "1 \<le> E \<and> E \<le> 9 \<longrightarrow> (?err = None \<longleftrightarrow> C div 100 = E)" by auto
  have c: "10 \<le> E \<and> E \<le> 99 \<longrightarrow> (?err = None \<longleftrightarrow> C div 10 = E)" by auto
  have d: "100 \<le> E \<and> E \<le> 999 \<longrightarrow> (?err = None \<longleftrightarrow> C = E)" by auto
  have e: "E = 0 \<longrightarrow> ?err = None" by simp
  have f: "E = 2 \<longrightarrow> (?err = None \<longleftrightarrow> 200 \<le> C \<and> C \<le> 299)" by (simp; arith)
  have g: "E = 22 \<longrightarrow> (?err = None \<longleftrightarrow> 220 \<le> C \<and> C \<le> 229)" by (simp; arith)
  have h: "E = 211 \<longrightarrow> (?err = None \<longleftrightarrow> C = 211)" by auto
  from run a b c d e f g h 
  show "\<exists>err. cmd E command c =
        Return (C, drop 4 (TrimSpace raw), err, c1\<lparr>wr := wr c1 @ [command @ [CR, LF]], rd := cr\<rparr>) \<and>
      (err = None \<or> err = Some (Error C (drop 4 (TrimSpace raw)))) \<and>
      (1 \<le> E \<and> E \<le> 9 \<longrightarrow> (err = None \<longleftrightarrow> C div 100 = E)) \<and>
      (10 \<le> E \<and> E \<le> 99 \<longrightarrow> (err = None \<longleftrightarrow> C div 10 = E)) \<and>
      (100 \<le> E \<and> E \<le> 999 \<longrightarrow> (err = None \<longleftrightarrow> C = E)) \<and>
      (E = 0 \<longrightarrow> err = None) \<and>
      (E = 2 \<longrightarrow> (err = None \<longleftrightarrow> 200 \<le> C \<and> C \<le> 299)) \<and>
      (E = 22 \<longrightarrow> (err = None \<longleftrightarrow> 220 \<le> C \<and> C \<le> 229)) \<and>
      (E = 211 \<longrightarrow> (err = None \<longleftrightarrow> C = 211))"
    by (intro exI [of _ ?err] conjI)
qed

definition conn0 :: Conn where
  "conn0 = \<lparr>rd = \<lparr>pending = ''211 5 1 5 misc.test'' @ [CR, LF], fin = EOF\<rparr>, wr = [], werr = None,
     br = None, close = False, xzverUnsupported = False, xzverSupported = False\<rparr>"

lemma trim_ex: "TrimSpace (''211 5 1 5 misc.test'' @ [CR, LF]) = ''211 5 1 5 misc.test''"
  by code_simp

lemma pu: "ParseUint ''211'' = Some 211" by code_simp

theorem cmd_expectCode_witness:
  "cmd 2 ''GROUP misc.test'' conn0 =
     Return (211, ''5 1 5 misc.test'', None,
       conn0\<lparr>wr := [''GROUP misc.test'' @ [CR, LF]], rd := \<lparr>pending = [], fin = EOF\<rparr>\<rparr>) \<and>
   cmd 22 ''GROUP misc.test'' conn0 =
     Return (211, ''5 1 5 misc.test'', Some (Error 211 ''5 1 5 misc.test''),
       conn0\<lparr>wr := [''GROUP misc.test'' @ [CR, LF]], rd := \<lparr>pending = [], fin = EOF\<rparr>\<rparr>)"
proof -
  have 1: "\<not> close conn0" by (simp add: conn0_def)
  have 2: "drain conn0 = Return (None, conn0)" by (simp add: drain_def conn0_def)
  have 3: "werr conn0 = None" by (simp add: conn0_def)
  have 4: "ReadString LF (rd conn0) = (''211 5 1 5 misc.test'' @ [CR, LF], None, \<lparr>pending = [], fin = EOF\<rparr>)"
    by (simp add: ReadString_def conn0_def)
  have 5: "4 \<le> length (TrimSpace (''211 5 1 5 misc.test'' @ [CR, LF]))" unfolding trim_ex by simp
  have 6: "TrimSpace (''211 5 1 5 misc.test'' @ [CR, LF]) ! 3 = SP" unfolding trim_ex by simp
  have 7: "ParseUint (take 3 (TrimSpace (''211 5 1 5 misc.test'' @ [CR, LF]))) = Some 211"
    unfolding trim_ex by (simp add: pu)
  show ?thesis
    using cmd_expectCode [OF 1 2 3 4 5 6 7, of 2 "''GROUP misc.test''"]
      cmd_expectCode [OF 1 2 3 4 5 6 7, of 22 "''GROUP misc.test''"]
    unfolding trim_ex by (auto simp: conn0_def)
qed

section \<open>Overview lines with tab-delimited references\<close>



definition nodate :: "string \<Rightarrow> unit option" where "nodate s = None"




section \<open>Overview lines whose bytes field never parses\<close>

text \<open>
  C10. A line of eight fields whose seventh is not a number: the loop glues it onto the
  references, seven fields are left, the loop ends, and \<^verbatim>\<open>ss[7]\<close> is read out of range.
  \<open>parseOverview\<close> panics instead of returning overviews or an error.
\<close>

theorem parseOverview_index_panic:
  "parseOverview nodate
     \<lparr>pending = ''1'' @ [HT] @ ''a'' @ [HT] @ ''b'' @ [HT] @ ''c'' @ [HT] @ ''d'' @ [HT] @ ''e'' @
        [HT] @ ''x'' @ [HT] @ ''y'' @ [CR, LF] @ ''.'' @ [CR, LF], fin = EOF\<rparr> [] =
   Panic ''index out of range''"
  by code_simp

section \<open>GROUP answered with a malformed status line\<close>

text \<open>
  C9. The server answers GROUP with code 211 and a text that is not three numbers.
  \<open>parseGroupStatus\<close> returns a nil status with its error, and \<open>Conn_Group\<close> assigns the name
  through that nil pointer: the call panics and returns neither a status nor the error.
\<close>

theorem Conn_Group_malformed_panic:
  "Conn_Group ''misc.test''
     \<lparr>rd = \<lparr>pending = ''211 abc'' @ [CR, LF], fin = EOF\<rparr>, wr = [], werr = None,
      br = None, close = False, xzverUnsupported = False, xzverSupported = False\<rparr> =
   Panic ''nil pointer dereference''"
  by code_simp

section \<open>What a command writes and what it leaves as it is\<close>

lemma Read_error_io:
  "Read n r cr = Return (p, Some e, r', cr') \<Longrightarrow> \<exists>io. e = IOError io"
  by (auto simp: Read_def ReadBytes_def ReadString_def Let_def
      split: if_splits option.splits prod.splits)

lemma ReadAll_error_io:
  "ReadAll k r cr acc = Return (d, Some e, r', cr') \<Longrightarrow> \<exists>io. e = IOError io"
proof (induction k r cr acc rule: ReadAll.induct)
  case (1 k r cr acc)
  show ?case
  proof (cases "Read (Suc k) r cr")
    case (Panic m)
    with "1.prems" show ?thesis by (simp add: ReadAll.simps)
  next
    case (Return t)
    obtain p eo r1 cr1 where t: "t = (p, eo, r1, cr1)" by (cases t) auto
    show ?thesis
    proof (cases eo)
      case None
      with Return t "1.prems" have "ReadAll k r1 cr1 (acc @ p) = Return (d, Some e, r', cr')"
        by (simp add: ReadAll.simps [of k r cr])
      with "1.IH" [OF Return t [symmetric]] None show ?thesis by simp
    next
      case (Some e1)
      with Return t "1.prems" have "e = e1" "e1 \<noteq> IOError EOF"
        by (auto simp: ReadAll.simps [of k r cr] split: if_splits)
      moreover from Return t Some Read_error_io obtain io where "e1 = IOError io" by blast
      ultimately show ?thesis by simp
    qed
  qed
qed

lemma drain_frame:
  assumes "drain c = Return (eo, c1)"
  shows "wr c1 = wr c \<and> werr c1 = werr c \<and> close c1 = close c \<and>
         xzverUnsupported c1 = xzverUnsupported c \<and> xzverSupported c1 = xzverSupported c \<and>
         (\<forall>e. eo = Some e \<longrightarrow> (\<exists>io. e = IOError io))"
proof (cases "br c")
  case None
  with assms show ?thesis by (simp add: drain_def)
next
  case (Some r)
  show ?thesis
  proof (cases "ReadAll 511 r (rd c) []")
    case (Panic m)
    with Some assms show ?thesis by (simp add: drain_def discard_def)
  next
    case (Return t)
    obtain d e r' cr' where t: "t = (d, e, r', cr')" by (cases t) auto
    show ?thesis
    proof (cases e)
      case None
      with Some Return t assms show ?thesis by (auto simp: drain_def discard_def)
    next
      case (Some e1)
      from Return t Some ReadAll_error_io obtain io where "e1 = IOError io" by blast
      with \<open>br c = Some r\<close> Some Return t assms show ?thesis by (auto simp: drain_def discard_def)
    qed
  qed
qed

text \<open>What a returning \<open>cmd\<close> has done: nothing on a closed connection; or the drain failed; or
  the write failed; or the command was written and an answer was read.\<close>

lemma cmd_cases:
  assumes "cmd E s c = Return (code, line, err, c')"
  obtains (is_closed) "close c" "c' = c" "err = Some (ProtocolError ''connection closed'')"
  | (drain_failed) e where "\<not> close c" "drain c = Return (Some e, c')" "err = Some e"
  | (write_failed) c1 io where "\<not> close c" "drain c = Return (None, c1)" "werr c1 = Some io"
      "c' = c1" "err = Some (IOError io)"
  | (was_sent) c1 cr where "\<not> close c" "drain c = Return (None, c1)" "werr c1 = None"
      "c' = c1\<lparr>wr := wr c1 @ [s @ [CR, LF]], rd := cr\<rparr>"
proof (cases "close c")
  case True
  with assms have "c' = c" "err = Some (ProtocolError ''connection closed'')"
    by (simp_all add: cmd_def)
  with True show ?thesis by (rule is_closed)
next
  case False
  show ?thesis
  proof (cases "drain c")
    case (Panic m)
    with False assms show ?thesis by (simp add: cmd_def)
  next
    case (Return t)
    obtain eo c1 where t: "t = (eo, c1)" by (cases t) auto
    show ?thesis
    proof (cases eo)
      case (Some e)
      with False Return t assms have "c' = c1" "err = Some e" by (simp_all add: cmd_def)
      with False Return t Some show ?thesis by (intro drain_failed) simp_all
    next
      case None
      note d = Return [unfolded t None]
      show ?thesis
      proof (cases "werr c1")
        case (Some io)
        with False d assms have "c' = c1" "err = Some (IOError io)"
          by (simp_all add: cmd_def Fprintf_def)
        with False d Some show ?thesis by (intro write_failed) simp_all
      next
        case None
        obtain l eo2 cr where rs: "ReadString LF (rd c1) = (l, eo2, cr)"
          by (cases "ReadString LF (rd c1)") auto
        have "c' = c1\<lparr>wr := wr c1 @ [s @ [CR, LF]], rd := cr\<rparr>"
          using False d None rs assms
          by (simp add: cmd_def Fprintf_def Let_def split: option.splits if_splits)
        with False d None show ?thesis by (intro was_sent) simp_all
      qed
    qed
  qed
qed

lemma cmd_frame:
  assumes "cmd E s c = Return (code, line, err, c')"
  shows "xzverUnsupported c' = xzverUnsupported c \<and> xzverSupported c' = xzverSupported c \<and>
         close c' = close c \<and> werr c' = werr c \<and>
         (wr c' = wr c \<or> wr c' = wr c @ [s @ [CR, LF]])"
  using assms by (cases rule: cmd_cases) (auto dest!: drain_frame)


lemma drain_None_br: "drain c = Return (None, c1) \<Longrightarrow> br c1 = None"
  by (auto simp: drain_def split: option.splits exec.splits prod.splits)

text \<open>An error of the type \<open>Error\<close> comes from a status line: the command was written.\<close>

lemma cmd_Error_sent:
  assumes "cmd E s c = Return (code, line, Some (Error a b), c')"
  shows "wr c' = wr c @ [s @ [CR, LF]] \<and> \<not> close c' \<and> werr c' = None \<and> br c' = None"
  using assms
proof (cases rule: cmd_cases)
  case is_closed
  then show ?thesis by simp
next
  case (drain_failed e)
  with drain_frame [OF drain_failed(2)] show ?thesis by auto
next
  case (write_failed c1 io)
  then show ?thesis by simp
next
  case (was_sent c1 cr)
  with drain_frame [OF was_sent(2)] drain_None_br [OF was_sent(2)] show ?thesis by simp
qed

lemma Overview_data_frame:
  "Overview_data parseDate zl line c = Return (res, c') \<Longrightarrow> \<exists>cr. c' = c\<lparr>rd := cr\<rparr>"
  by (auto simp: Overview_data_def split: if_splits prod.splits option.splits exec.splits sum.splits)

lemma Overview_OVER_frame:
  assumes "Overview_OVER parseDate zl from_n to_n c = Return (res, c')"
  shows "xzverUnsupported c' = xzverUnsupported c \<and> xzverSupported c' = xzverSupported c \<and>
     (wr c' = wr c \<or> wr c' = wr c @ [''OVER '' @ rangeArg from_n to_n @ [CR, LF]] \<or>
      wr c' = wr c @ [''OVER '' @ rangeArg from_n to_n @ [CR, LF],
                      ''XOVER '' @ rangeArg from_n to_n @ [CR, LF]])"
proof (cases "cmd 224 (''OVER '' @ rangeArg from_n to_n) c")
  case (Panic m)
  with assms show ?thesis by (simp add: Overview_OVER_def)
next
  case (Return t)
  obtain code line eo c1 where t: "t = (code, line, eo, c1)" by (cases t) auto
  note over = Return [unfolded t]
  note f1 = cmd_frame [OF over]
  show ?thesis
  proof (cases eo)
    case None
    with over assms have "Overview_data parseDate zl line c1 = Return (res, c')"
      by (simp add: Overview_OVER_def)
    from Overview_data_frame [OF this] f1 show ?thesis by auto
  next
    case (Some err)
    show ?thesis
    proof (cases "\<exists>msg. err = Error 500 msg")
      case False
      with over Some assms have "c' = c1"
        by (auto simp: Overview_OVER_def split: error.splits if_splits)
      with f1 show ?thesis by auto
    next
      case True
      then obtain msg where err: "err = Error 500 msg" ..
      from cmd_Error_sent [OF over [unfolded Some err]]
      have w1: "wr c1 = wr c @ [''OVER '' @ rangeArg from_n to_n @ [CR, LF]]" by simp
      show ?thesis
      proof (cases "cmd 224 (''XOVER '' @ rangeArg from_n to_n) c1")
        case (Panic m)
        with over Some err assms show ?thesis by (simp add: Overview_OVER_def)
      next
        case (Return t2)
        obtain code2 xline xeo c2 where t2: "t2 = (code2, xline, xeo, c2)" by (cases t2) auto
        note xover = Return [unfolded t2]
        note f2 = cmd_frame [OF xover]
        show ?thesis
        proof (cases xeo)
          case None
          with over Some err xover assms
          have "Overview_data parseDate zl xline c2 = Return (res, c')"
            by (simp add: Overview_OVER_def)
          from Overview_data_frame [OF this] f1 f2 w1 show ?thesis by auto
        next
          case (Some xerr)
          with over \<open>eo = Some err\<close> err xover assms have "c' = c2"
            by (simp add: Overview_OVER_def)
          with f1 f2 w1 show ?thesis by auto
        qed
      qed
    qed
  qed
qed

section \<open>Overview: a failed XZVER\<close>

text \<open>
  C4. When \<open>Overview\<close> tries XZVER and the command returns an error, whatever the error,
  \<open>Overview\<close> is the OVER stage run on the connection with \<open>xzverUnsupported\<close> set: the
  caller gets what OVER (or XOVER after it) gives. If the call returns, the flag is set on
  the connection it leaves, and after XZVER it has written nothing, or OVER, or OVER and
  XOVER.
\<close>

theorem Overview_XZVER_failure_falls_through:
  assumes "\<not> xzverUnsupported c \<or> xzverSupported c"
    and "cmd 224 (''XZVER '' @ rangeArg from_n to_n) c = Return (code, line, Some xzerr, c1)"
  shows "Overview parseDate xz zl from_n to_n c =
           Overview_OVER parseDate zl from_n to_n (c1\<lparr>xzverUnsupported := True\<rparr>) \<and>
         (\<forall>res c'. Overview parseDate xz zl from_n to_n c = Return (res, c') \<longrightarrow>
            xzverUnsupported c' \<and>
            (wr c' = wr c1 \<or>
             wr c' = wr c1 @ [''OVER '' @ rangeArg from_n to_n @ [CR, LF]] \<or>
             wr c' = wr c1 @ [''OVER '' @ rangeArg from_n to_n @ [CR, LF],
                              ''XOVER '' @ rangeArg from_n to_n @ [CR, LF]]))"
proof -
  have eq: "Overview parseDate xz zl from_n to_n c =
           Overview_OVER parseDate zl from_n to_n (c1\<lparr>xzverUnsupported := True\<rparr>)"
    using assms by (simp add: Overview_def)
  show ?thesis
  proof (intro conjI allI impI)
    show "Overview parseDate xz zl from_n to_n c =
           Overview_OVER parseDate zl from_n to_n (c1\<lparr>xzverUnsupported := True\<rparr>)"
      by (rule eq)
  next
    fix res c'
    assume "Overview parseDate xz zl from_n to_n c = Return (res, c')"
    with eq have "Overview_OVER parseDate zl from_n to_n (c1\<lparr>xzverUnsupported := True\<rparr>) = Return (res, c')"
      by simp
    from Overview_OVER_frame [OF this]
    show "xzverUnsupported c'"
      and "wr c' = wr c1 \<or>
             wr c' = wr c1 @ [''OVER '' @ rangeArg from_n to_n @ [CR, LF]] \<or>
             wr c' = wr c1 @ [''OVER '' @ rangeArg from_n to_n @ [CR, LF],
                              ''XOVER '' @ rangeArg from_n to_n @ [CR, LF]]"
      by simp_all
  qed
qed

text \<open>Instances of the parameters for the examples: no date parses, the encoded block is
  empty, and the compressed block is the plain one.\<close>

definition xz0 :: xzdecoder where
  "xz0 r = (\<lparr>pending = [], fin = EOF\<rparr>, r)"

definition zl0 :: zlibdecoder where
  "zl0 r = (None, r, \<lparr>pending = [], fin = EOF\<rparr>, None)"

definition fresh :: "string \<Rightarrow> Conn" where
  "fresh input = \<lparr>rd = \<lparr>pending = input, fin = EOF\<rparr>, wr = [], werr = None, br = None,
     close = False, xzverUnsupported = False, xzverSupported = False\<rparr>"

lemma falls_through_ex1: "cmd 224 (''XZVER '' @ rangeArg 1 2) (fresh (''500 a'' @ [CR, LF] @ ''500 b'' @ [CR, LF] @ ''501 c'' @ [CR, LF]))
  = Return (500, ''a'', Some (Error 500 ''a''), (fresh (''500 b'' @ [CR, LF] @ ''501 c'' @ [CR, LF]))\<lparr>wr := [''XZVER 1-2'' @ [CR, LF]]\<rparr>)"
  by code_simp

lemma falls_through_ex2: "Overview_OVER nodate zl0 1 2 ((fresh (''500 b'' @ [CR, LF] @ ''501 c'' @ [CR, LF]))\<lparr>wr := [''XZVER 1-2'' @ [CR, LF]], xzverUnsupported := True\<rparr>)
  = Return (Inl (Error 500 ''b''), (fresh [])\<lparr>wr := [''XZVER 1-2'' @ [CR, LF], ''OVER 1-2'' @ [CR, LF], ''XOVER 1-2'' @ [CR, LF]], xzverUnsupported := True\<rparr>)"
  by code_simp

theorem Overview_XZVER_failure_falls_through_witness:
  "Overview nodate xz0 zl0 1 2 (fresh (''500 a'' @ [CR, LF] @ ''500 b'' @ [CR, LF] @ ''501 c'' @ [CR, LF])) =
   Return (Inl (Error 500 ''b''), (fresh [])\<lparr>wr := [''XZVER 1-2'' @ [CR, LF], ''OVER 1-2'' @ [CR, LF], ''XOVER 1-2'' @ [CR, LF]], xzverUnsupported := True\<rparr>)"
proof -
  let ?c = "fresh (''500 a'' @ [CR, LF] @ ''500 b'' @ [CR, LF] @ ''501 c'' @ [CR, LF])"
  have 1: "\<not> xzverUnsupported ?c \<or> xzverSupported ?c" by (simp add: fresh_def)
  from Overview_XZVER_failure_falls_through [OF 1 falls_through_ex1, of nodate xz0 zl0]
  have "Overview nodate xz0 zl0 1 2 ?c = Overview_OVER nodate zl0 1 2
      ((fresh (''500 b'' @ [CR, LF] @ ''501 c'' @ [CR, LF]))\<lparr>wr := [''XZVER 1-2'' @ [CR, LF]], xzverUnsupported := True\<rparr>)"
    by simp
  then show ?thesis unfolding falls_through_ex2 .
qed

section \<open>Overview: from OVER to XOVER\<close>

text \<open>
  C6. Let the OVER command of the overview return an error. If the error is not a status
  error with the code 500 (command not recognized), the overview returns it at once and
  leaves the connection as OVER left it: no other command is sent. If it is, OVER was
  written and XOVER is tried on the connection OVER left; when XOVER returns an error too,
  the overview returns the error of OVER, not that of XOVER; when XOVER succeeds, the
  overview goes on with the response line of XOVER. On a connection where XZVER is known
  to be unsupported the overview is this stage.
\<close>

theorem Overview_OVER_fallback:
  assumes "cmd 224 (''OVER '' @ rangeArg from_n to_n) c = Return (code, line, Some err, c1)"
  shows "(xzverUnsupported c \<and> \<not> xzverSupported c \<longrightarrow>
            Overview parseDate xz zl from_n to_n c = Overview_OVER parseDate zl from_n to_n c) \<and>
         ((\<forall>msg. err \<noteq> Error 500 msg) \<longrightarrow>
            Overview_OVER parseDate zl from_n to_n c = Return (Inl err, c1)) \<and>
         ((\<exists>msg. err = Error 500 msg) \<longrightarrow>
            wr c1 = wr c @ [''OVER '' @ rangeArg from_n to_n @ [CR, LF]] \<and>
            (\<forall>code2 xline xerr c2.
               cmd 224 (''XOVER '' @ rangeArg from_n to_n) c1 = Return (code2, xline, Some xerr, c2) \<longrightarrow>
               Overview_OVER parseDate zl from_n to_n c = Return (Inl err, c2)) \<and>
            (\<forall>code2 xline c2.
               cmd 224 (''XOVER '' @ rangeArg from_n to_n) c1 = Return (code2, xline, None, c2) \<longrightarrow>
               Overview_OVER parseDate zl from_n to_n c = Overview_data parseDate zl xline c2) \<and>
            (\<forall>m. cmd 224 (''XOVER '' @ rangeArg from_n to_n) c1 = Panic m \<longrightarrow>
               Overview_OVER parseDate zl from_n to_n c = Panic m))"
proof (intro conjI impI)
  assume "xzverUnsupported c \<and> \<not> xzverSupported c"
  then show "Overview parseDate xz zl from_n to_n c = Overview_OVER parseDate zl from_n to_n c"
    by (simp add: Overview_def)
next
  assume "\<forall>msg. err \<noteq> Error 500 msg"
  with assms show "Overview_OVER parseDate zl from_n to_n c = Return (Inl err, c1)"
    by (auto simp: Overview_OVER_def split: error.splits)
next
  assume "\<exists>msg. err = Error 500 msg"
  then obtain msg where err: "err = Error 500 msg" ..
  from cmd_Error_sent [OF assms [unfolded err]]
  show "wr c1 = wr c @ [''OVER '' @ rangeArg from_n to_n @ [CR, LF]]" by simp
  show "\<forall>code2 xline xerr c2.
               cmd 224 (''XOVER '' @ rangeArg from_n to_n) c1 = Return (code2, xline, Some xerr, c2) \<longrightarrow>
               Overview_OVER parseDate zl from_n to_n c = Return (Inl err, c2)"
    using assms err by (simp add: Overview_OVER_def)
  show "\<forall>code2 xline c2.
               cmd 224 (''XOVER '' @ rangeArg from_n to_n) c1 = Return (code2, xline, None, c2) \<longrightarrow>
               Overview_OVER parseDate zl from_n to_n c = Overview_data parseDate zl xline c2"
    using assms err by (simp add: Overview_OVER_def)
  show "\<forall>m. cmd 224 (''XOVER '' @ rangeArg from_n to_n) c1 = Panic m \<longrightarrow>
               Overview_OVER parseDate zl from_n to_n c = Panic m"
    using assms err by (simp add: Overview_OVER_def)
qed

definition known_unsupported :: "string \<Rightarrow> Conn" where
  "known_unsupported input = (fresh input)\<lparr>xzverUnsupported := True\<rparr>"

lemma fallback_ex1: "cmd 224 (''OVER '' @ rangeArg 1 2) (known_unsupported (''500 b'' @ [CR, LF] @ ''501 c'' @ [CR, LF]))
  = Return (500, ''b'', Some (Error 500 ''b''), (known_unsupported (''501 c'' @ [CR, LF]))\<lparr>wr := [''OVER 1-2'' @ [CR, LF]]\<rparr>)"
  by code_simp

lemma fallback_ex2: "cmd 224 (''XOVER '' @ rangeArg 1 2) ((known_unsupported (''501 c'' @ [CR, LF]))\<lparr>wr := [''OVER 1-2'' @ [CR, LF]]\<rparr>)
  = Return (501, ''c'', Some (Error 501 ''c''), (known_unsupported [])\<lparr>wr := [''OVER 1-2'' @ [CR, LF], ''XOVER 1-2'' @ [CR, LF]]\<rparr>)"
  by code_simp

lemma fallback_ex3: "cmd 224 (''OVER '' @ rangeArg 1 2) (known_unsupported (''502 no'' @ [CR, LF] @ ''224 ok'' @ [CR, LF]))
  = Return (502, ''no'', Some (Error 502 ''no''), (known_unsupported (''224 ok'' @ [CR, LF]))\<lparr>wr := [''OVER 1-2'' @ [CR, LF]]\<rparr>)"
  by code_simp

theorem Overview_OVER_fallback_witness:
  "Overview nodate xz0 zl0 1 2 (known_unsupported (''500 b'' @ [CR, LF] @ ''501 c'' @ [CR, LF])) =
     Return (Inl (Error 500 ''b''),
       (known_unsupported [])\<lparr>wr := [''OVER 1-2'' @ [CR, LF], ''XOVER 1-2'' @ [CR, LF]]\<rparr>) \<and>
   Overview nodate xz0 zl0 1 2 (known_unsupported (''502 no'' @ [CR, LF] @ ''224 ok'' @ [CR, LF])) =
     Return (Inl (Error 502 ''no''),
       (known_unsupported (''224 ok'' @ [CR, LF]))\<lparr>wr := [''OVER 1-2'' @ [CR, LF]]\<rparr>)"
proof
  let ?c = "known_unsupported (''500 b'' @ [CR, LF] @ ''501 c'' @ [CR, LF])"
  have flags: "xzverUnsupported ?c \<and> \<not> xzverSupported ?c"
    by (simp add: known_unsupported_def fresh_def)
  note T = Overview_OVER_fallback [OF fallback_ex1, of nodate xz0 zl0]
  from T flags have a: "Overview nodate xz0 zl0 1 2 ?c = Overview_OVER nodate zl0 1 2 ?c"
    by blast
  from T fallback_ex2 have "Overview_OVER nodate zl0 1 2 ?c = Return (Inl (Error 500 ''b''),
       (known_unsupported [])\<lparr>wr := [''OVER 1-2'' @ [CR, LF], ''XOVER 1-2'' @ [CR, LF]]\<rparr>)"
    by blast
  with a show "Overview nodate xz0 zl0 1 2 ?c =
     Return (Inl (Error 500 ''b''),
       (known_unsupported [])\<lparr>wr := [''OVER 1-2'' @ [CR, LF], ''XOVER 1-2'' @ [CR, LF]]\<rparr>)"
    by (simp only:)
next
  let ?c = "known_unsupported (''502 no'' @ [CR, LF] @ ''224 ok'' @ [CR, LF])"
  have flags: "xzverUnsupported ?c \<and> \<not> xzverSupported ?c"
    by (simp add: known_unsupported_def fresh_def)
  note T = Overview_OVER_fallback [OF fallback_ex3, of nodate xz0 zl0]
  from T flags have a: "Overview nodate xz0 zl0 1 2 ?c = Overview_OVER nodate zl0 1 2 ?c"
    by blast
  have "\<forall>msg. Error 502 ''no'' \<noteq> Error 500 msg" by simp
  with T have "Overview_OVER nodate zl0 1 2 ?c = Return (Inl (Error 502 ''no''),
       (known_unsupported (''224 ok'' @ [CR, LF]))\<lparr>wr := [''OVER 1-2'' @ [CR, LF]]\<rparr>)"
    by blast
  with a show "Overview nodate xz0 zl0 1 2 ?c =
     Return (Inl (Error 502 ''no''),
       (known_unsupported (''224 ok'' @ [CR, LF]))\<lparr>wr := [''OVER 1-2'' @ [CR, LF]]\<rparr>)"
    by (simp only:)
qed

section \<open>Overview: XZVER after a failure\<close>

lemma Fprintf_frame:
  "Fprintf s c = (eo, c') \<Longrightarrow>
     xzverUnsupported c' = xzverUnsupported c \<and> xzverSupported c' = xzverSupported c"
  by (auto simp: Fprintf_def split: option.splits)

lemma RawPost_loop_frame:
  "RawPost_loop src c = (eo, c') \<Longrightarrow>
     xzverUnsupported c' = xzverUnsupported c \<and> xzverSupported c' = xzverSupported c"
proof (induction src c rule: RawPost_loop.induct)
  case (1 src c)
  obtain line err src' where rs: "ReadString LF src = (line, err, src')"
    by (cases "ReadString LF src") auto
  show ?case
  proof (cases "err \<noteq> None \<and> err \<noteq> Some (IOError EOF)")
    case True
    with rs "1.prems" show ?thesis by (subst (asm) RawPost_loop.simps) auto
  next
    case False
    define eof where "eof = (err = Some (IOError EOF))"
    show ?thesis
    proof (cases "eof \<and> length line = 0")
      case True
      with rs False "1.prems" show ?thesis
        by (subst (asm) RawPost_loop.simps) (auto simp: eof_def)
    next
      case stop: False
      define line' where "line' = (if HasSuffix line [LF] then take (length line - 1) line else line)"
      define prefix where "prefix = (if HasPrefix line' ''.'' then ''.'' else [])"
      obtain wo c1 where fp: "Fprintf (prefix @ line' @ [CR, LF]) c = (wo, c1)"
        by (cases "Fprintf (prefix @ line' @ [CR, LF]) c") auto
      note f1 = Fprintf_frame [OF fp]
      show ?thesis
      proof (cases "wo = None \<and> \<not> eof")
        case True
        with rs False stop fp "1.prems" have "RawPost_loop src' c1 = (eo, c')"
          by (subst (asm) RawPost_loop.simps) (simp add: eof_def line'_def prefix_def Let_def)
        from "1.IH" [OF rs [symmetric] refl False eof_def stop line'_def prefix_def fp [symmetric] _ _ this]
          True f1
        show ?thesis by simp
      next
        case False
        with rs \<open>\<not> (err \<noteq> None \<and> err \<noteq> Some (IOError EOF))\<close> stop fp "1.prems" have "c' = c1"
          by (subst (asm) RawPost_loop.simps)
             (auto simp: eof_def line'_def prefix_def Let_def split: option.splits)
        with f1 show ?thesis by simp
      qed
    qed
  qed
qed


lemma RawPost_frame:
  assumes "RawPost src c = Return (eo, c')"
  shows "xzverUnsupported c' = xzverUnsupported c \<and> xzverSupported c' = xzverSupported c"
proof (cases "cmd 3 ''POST'' c")
  case (Panic m)
  with assms show ?thesis by (simp add: RawPost_def)
next
  case (Return t)
  obtain code line err c1 where t: "t = (code, line, err, c1)" by (cases t) auto
  note post = Return [unfolded t]
  note f1 = cmd_frame [OF post]
  show ?thesis
  proof (cases err)
    case (Some e)
    with post assms have "c' = c1" by (simp add: RawPost_def)
    with f1 show ?thesis by simp
  next
    case None
    obtain lo c2 where loop: "RawPost_loop src c1 = (lo, c2)" by (cases "RawPost_loop src c1") auto
    note f2 = RawPost_loop_frame [OF loop]
    show ?thesis
    proof (cases lo)
      case (Some e)
      with post None loop assms have "c' = c2" by (simp add: RawPost_def)
      with f1 f2 show ?thesis by simp
    next
      case lo: None
      with post None loop assms obtain code3 line3 where "cmd 240 ''.'' c2 = Return (code3, line3, eo, c')"
        by (auto simp: RawPost_def split: exec.splits)
      from cmd_frame [OF this] f1 f2 show ?thesis by simp
    qed
  qed
qed

lemma readGroups_frame: "readGroups zl line c = (res, c') \<Longrightarrow> \<exists>cr. c' = c\<lparr>rd := cr\<rparr>"
  by (auto simp: readGroups_def split: if_splits prod.splits option.splits)

lemma parseXzver_frame: "parseXzver parseDate xz c = Return (res, c') \<Longrightarrow> \<exists>cr. c' = c\<lparr>rd := cr\<rparr>"
  by (auto simp: parseXzver_def split: if_splits prod.splits option.splits exec.splits sum.splits)

text \<open>A call other than an overview leaves the two quirks as they are.\<close>

lemma step_frame:
  assumes "step parseDate xz zl x c = Return c'" and "\<And>a b. x \<noteq> GetOverview a b"
  shows "xzverUnsupported c' = xzverUnsupported c \<and> xzverSupported c' = xzverSupported c"
proof (cases x)
  case (Cmd E s)
  with assms(1) obtain code line err where "cmd E s c = Return (code, line, err, c')"
    by (auto split: exec.splits)
  from cmd_frame [OF this] show ?thesis by simp
next
  case Body
  with assms(1) show ?thesis by (auto simp: body_def)
next
  case (ReadBody n)
  with assms(1) show ?thesis by (auto split: option.splits exec.splits)
next
  case (GetLines E s)
  with assms(1) obtain code line err c1 cr where
    "cmd E s c = Return (code, line, err, c1)" and "c' = c1 \<or> c' = c1\<lparr>rd := cr\<rparr>"
    by (auto split: exec.splits option.splits prod.splits)
  with cmd_frame [of E s c code line err c1] show ?thesis by auto
next
  case (GetGroups E s)
  with assms(1) obtain code line err c1 where
    c: "cmd E s c = Return (code, line, err, c1)" and "c' = c1 \<or> c' = snd (readGroups zl line c1)"
    by (auto split: exec.splits option.splits prod.splits)
  moreover have "readGroups zl line c1 = (fst (readGroups zl line c1), snd (readGroups zl line c1))"
    by simp
  from readGroups_frame [OF this] obtain cr where "snd (readGroups zl line c1) = c1\<lparr>rd := cr\<rparr>" ..
  ultimately show ?thesis using cmd_frame [OF c] by auto
next
  case (SelectGroup name)
  with assms(1) obtain code line err c1 where
    "cmd 211 (''GROUP '' @ name) c = Return (code, line, err, c1)" and "c' = c1"
    by (auto simp: Conn_Group_def split: exec.splits option.splits prod.splits)
  with cmd_frame [of 211 "''GROUP '' @ name" c code line err c1] show ?thesis by simp
next
  case (GetOverview a b)
  with assms(2) [of a b] show ?thesis by simp
next
  case (Post src)
  with assms(1) obtain eo where "RawPost src c = Return (eo, c')"
    by (auto split: exec.splits)
  from RawPost_frame [OF this] show ?thesis .
next
  case Close
  with assms(1) obtain code line err c1 where
    "cmd 0 ''QUIT'' c = Return (code, line, err, c1)" and "c' = c1\<lparr>close := True\<rparr>"
    by (auto simp: Quit_def split: exec.splits)
  with cmd_frame [of 0 "''QUIT''" c code line err c1] show ?thesis by simp
qed

text \<open>An overview never clears \<open>xzverSupported\<close>, and it leaves both quirks as they are once
  XZVER is known as unsupported and has never succeeded.\<close>

lemma Overview_frame:
  assumes "Overview parseDate xz zl a b c = Return (res, c')"
  shows "xzverSupported c \<Longrightarrow> xzverSupported c'"
    and "xzverUnsupported c \<Longrightarrow> \<not> xzverSupported c \<Longrightarrow> xzverUnsupported c' \<and> \<not> xzverSupported c'"
proof -
  show "xzverUnsupported c' \<and> \<not> xzverSupported c'" if "xzverUnsupported c" "\<not> xzverSupported c"
  proof -
    from that assms have "Overview_OVER parseDate zl a b c = Return (res, c')"
      by (simp add: Overview_def)
    from Overview_OVER_frame [OF this] that show ?thesis by simp
  qed
  show "xzverSupported c'" if s: "xzverSupported c"
  proof (cases "cmd 224 (''XZVER '' @ rangeArg a b) c")
    case (Panic m)
    with s assms show ?thesis by (simp add: Overview_def)
  next
    case (Return t)
    obtain code line err c1 where t: "t = (code, line, err, c1)" by (cases t) auto
    note xz = Return [unfolded t]
    note f1 = cmd_frame [OF xz]
    show ?thesis
    proof (cases err)
      case (Some e)
      with s xz assms
      have "Overview_OVER parseDate zl a b (c1\<lparr>xzverUnsupported := True\<rparr>) = Return (res, c')"
        by (simp add: Overview_def)
      from Overview_OVER_frame [OF this] f1 s show ?thesis by simp
    next
      case None
      with s xz assms
      have "parseXzver parseDate xz (c1\<lparr>xzverSupported := True\<rparr>) = Return (res, c')"
        by (simp add: Overview_def)
      from parseXzver_frame [OF this] show ?thesis by auto
    qed
  qed
qed

lemma step_keeps_unsupported:
  assumes "xzverUnsupported c" and "\<not> xzverSupported c"
    and "step parseDate xz zl x c = Return c'"
  shows "xzverUnsupported c' \<and> \<not> xzverSupported c'"
proof (cases "\<exists>a b. x = GetOverview a b")
  case True
  then obtain a b where x: "x = GetOverview a b" by blast
  with assms(3) obtain res where "Overview parseDate xz zl a b c = Return (res, c')"
    by (auto split: exec.splits)
  from Overview_frame(2) [OF this assms(1,2)] show ?thesis .
next
  case False
  then have "\<And>a b. x \<noteq> GetOverview a b" by blast
  from step_frame [OF assms(3) this] assms(1,2) show ?thesis by simp
qed

lemma step_keeps_supported:
  assumes "xzverSupported c" and "step parseDate xz zl x c = Return c'"
  shows "xzverSupported c'"
proof (cases "\<exists>a b. x = GetOverview a b")
  case True
  then obtain a b where x: "x = GetOverview a b" by blast
  with assms(2) obtain res where "Overview parseDate xz zl a b c = Return (res, c')"
    by (auto split: exec.splits)
  from Overview_frame(1) [OF this assms(1)] show ?thesis .
next
  case False
  then have "\<And>a b. x \<noteq> GetOverview a b" by blast
  from step_frame [OF assms(2) this] assms(1) show ?thesis by simp
qed

lemma run_keeps_unsupported:
  "xzverUnsupported c \<Longrightarrow> \<not> xzverSupported c \<Longrightarrow> run parseDate xz zl calls c = Return c' \<Longrightarrow>
   xzverUnsupported c' \<and> \<not> xzverSupported c'"
proof (induction calls arbitrary: c)
  case Nil
  then show ?case by simp
next
  case (Cons x xs)
  from Cons.prems(3) obtain c1 where s: "step parseDate xz zl x c = Return c1"
    and r: "run parseDate xz zl xs c1 = Return c'"
    by (auto split: exec.splits)
  from step_keeps_unsupported [OF Cons.prems(1,2) s] Cons.IH [OF _ _ r] show ?case by simp
qed

lemma run_keeps_supported:
  "xzverSupported c \<Longrightarrow> run parseDate xz zl calls c = Return c' \<Longrightarrow> xzverSupported c'"
proof (induction calls arbitrary: c)
  case Nil
  then show ?case by simp
next
  case (Cons x xs)
  from Cons.prems(2) obtain c1 where s: "step parseDate xz zl x c = Return c1"
    and r: "run parseDate xz zl xs c1 = Return c'"
    by (auto split: exec.splits)
  from step_keeps_supported [OF Cons.prems(1) s] Cons.IH [OF _ r] show ?case by simp
qed


text \<open>A drain that has failed fails again: the reader has nothing left but its error.\<close>

lemma Read_error_again:
  assumes "Read n r cr = Return (p, Some e, r', cr')" and "e \<noteq> IOError EOF"
  shows "Read m r' cr' = Return ([], Some e, r', cr')"
  using assms
  by (auto simp: Read_def ReadBytes_def ReadString_def Let_def
      split: if_splits option.splits prod.splits)

lemma ReadAll_error_again:
  "ReadAll k r cr acc = Return (d, Some e, r', cr') \<Longrightarrow>
   ReadAll j r' cr' acc' = Return (acc', Some e, r', cr')"
proof (induction k r cr acc rule: ReadAll.induct)
  case (1 k r cr acc)
  show ?case
  proof (cases "Read (Suc k) r cr")
    case (Panic m)
    with "1.prems" show ?thesis by (simp add: ReadAll.simps)
  next
    case (Return t)
    obtain p eo r1 cr1 where t: "t = (p, eo, r1, cr1)" by (cases t) auto
    show ?thesis
    proof (cases eo)
      case None
      with Return t "1.prems" have "ReadAll k r1 cr1 (acc @ p) = Return (d, Some e, r', cr')"
        by (simp add: ReadAll.simps [of k r cr])
      with "1.IH" [OF Return t [symmetric]] None show ?thesis by simp
    next
      case (Some e1)
      with Return t "1.prems" have e: "e = e1" "e1 \<noteq> IOError EOF" "r' = r1" "cr' = cr1"
        by (auto simp: ReadAll.simps [of k r cr] split: if_splits)
      from Return [unfolded t Some] e(2) have "Read (Suc j) r1 cr1 = Return ([], Some e1, r1, cr1)"
        by (rule Read_error_again)
      with e show ?thesis by (simp add: ReadAll.simps [of j r1 cr1])
    qed
  qed
qed

lemma drain_error_again:
  assumes "drain c = Return (Some e, c1)"
  shows "drain (c1\<lparr>xzverUnsupported := b\<rparr>) = Return (Some e, c1\<lparr>xzverUnsupported := b\<rparr>)"
proof -
  from assms obtain r d r' cr' where r: "br c = Some r"
    and ra: "ReadAll 511 r (rd c) [] = Return (d, Some e, r', cr')"
    and c1: "c1 = c\<lparr>rd := cr', br := Some r'\<rparr>"
    by (auto simp: drain_def discard_def split: option.splits exec.splits prod.splits)
  from ReadAll_error_again [OF ra, of 511 "[]"]
  have "ReadAll 511 r' cr' [] = Return ([], Some e, r', cr')" .
  with c1 show ?thesis by (simp add: drain_def discard_def)
qed

text \<open>A command that fails before it is written leaves a connection on which the next
  command is not written either.\<close>

lemma cmd_unsent_again:
  assumes "cmd E s c = Return (code, line, Some e, c1)" and "wr c1 = wr c"
  shows "\<exists>e'. cmd E' s' (c1\<lparr>xzverUnsupported := b\<rparr>) =
           Return (0, [], Some e', c1\<lparr>xzverUnsupported := b\<rparr>) \<and> (\<forall>n m. e' \<noteq> Error n m)"
  using assms(1)
proof (cases rule: cmd_cases)
  case is_closed
  then show ?thesis by (simp add: cmd_def)
next
  case (drain_failed e0)
  from drain_frame [OF drain_failed(2)] obtain io where io: "e0 = IOError io"
    and cl: "\<not> close c1" using drain_failed(1) by auto
  from drain_error_again [OF drain_failed(2), of b] cl io show ?thesis
    by (simp add: cmd_def)
next
  case (write_failed c0 io)
  from drain_frame [OF write_failed(2)] write_failed(1) have cl: "\<not> close c1"
    using write_failed(4) by simp
  from drain_None_br [OF write_failed(2)] write_failed(4) have "br c1 = None" by simp
  then have "drain (c1\<lparr>xzverUnsupported := b\<rparr>) = Return (None, c1\<lparr>xzverUnsupported := b\<rparr>)"
    by (simp add: drain_def)
  with cl write_failed(3,4) show ?thesis by (simp add: cmd_def Fprintf_def)
next
  case (was_sent c0 cr)
  with drain_frame [OF was_sent(2)] assms(2) show ?thesis by simp
qed

text \<open>When the guard of \<open>Overview\<close> lets XZVER through, XZVER is the first thing the call
  writes, if it writes at all.\<close>

lemma Overview_XZVER_first:
  assumes "\<not> xzverUnsupported c \<or> xzverSupported c"
    and "Overview parseDate xz zl a b c = Return (res, c')"
  shows "wr c' = wr c \<or> (\<exists>ws. wr c' = wr c @ (''XZVER '' @ rangeArg a b @ [CR, LF]) # ws)"
proof (cases "cmd 224 (''XZVER '' @ rangeArg a b) c")
  case (Panic m)
  with assms show ?thesis by (simp add: Overview_def)
next
  case (Return t)
  obtain code line err c1 where t: "t = (code, line, err, c1)" by (cases t) auto
  note xz = Return [unfolded t]
  note f1 = cmd_frame [OF xz]
  show ?thesis
  proof (cases err)
    case None
    with assms xz
    have "parseXzver parseDate xz (c1\<lparr>xzverSupported := True\<rparr>) = Return (res, c')"
      by (simp add: Overview_def)
    from parseXzver_frame [OF this] have w: "wr c' = wr c1" by auto
    from xz [unfolded None] have "wr c1 = wr c @ [''XZVER '' @ rangeArg a b @ [CR, LF]]"
      by (cases rule: cmd_cases) (auto dest!: drain_frame)
    with w show ?thesis by simp
  next
    case (Some e)
    with assms xz
    have over: "Overview_OVER parseDate zl a b (c1\<lparr>xzverUnsupported := True\<rparr>) = Return (res, c')"
      by (simp add: Overview_def)
    show ?thesis
    proof (cases "wr c1 = wr c")
      case True
      from cmd_unsent_again [OF xz [unfolded Some] True, of 224 "''OVER '' @ rangeArg a b" True]
      obtain e' where "cmd 224 (''OVER '' @ rangeArg a b) (c1\<lparr>xzverUnsupported := True\<rparr>) =
          Return (0, [], Some e', c1\<lparr>xzverUnsupported := True\<rparr>)" and "\<forall>n m. e' \<noteq> Error n m"
        by blast
      with over have "c' = c1\<lparr>xzverUnsupported := True\<rparr>"
        by (auto simp: Overview_OVER_def split: error.splits)
      with True show ?thesis by simp
    next
      case False
      with f1 have "wr c1 = wr c @ [''XZVER '' @ rangeArg a b @ [CR, LF]]" by simp
      with Overview_OVER_frame [OF over] show ?thesis by auto
    qed
  qed
qed

lemma Overview_XZVER_sent:
  assumes "\<not> xzverUnsupported c \<or> xzverSupported c"
    and "Overview parseDate xz zl a b c = Return (res, c')"
    and "\<not> close c" and "br c = None" and "werr c = None"
  shows "\<exists>ws. wr c' = wr c @ (''XZVER '' @ rangeArg a b @ [CR, LF]) # ws"
proof (cases "cmd 224 (''XZVER '' @ rangeArg a b) c")
  case (Panic m)
  with assms(1,2) show ?thesis by (simp add: Overview_def)
next
  case (Return t)
  obtain code line err c1 where t: "t = (code, line, err, c1)" by (cases t) auto
  note xz = Return [unfolded t]
  from assms(4) have d: "drain c = Return (None, c)" by (simp add: drain_def)
  from xz have w1: "wr c1 = wr c @ [''XZVER '' @ rangeArg a b @ [CR, LF]]"
    using assms(3,5) d by (cases rule: cmd_cases) simp_all
  show ?thesis
  proof (cases err)
    case None
    with assms(1,2) xz
    have "parseXzver parseDate xz (c1\<lparr>xzverSupported := True\<rparr>) = Return (res, c')"
      by (simp add: Overview_def)
    from parseXzver_frame [OF this] w1 show ?thesis by auto
  next
    case (Some e)
    with assms(1,2) xz
    have "Overview_OVER parseDate zl a b (c1\<lparr>xzverUnsupported := True\<rparr>) = Return (res, c')"
      by (simp add: Overview_def)
    from Overview_OVER_frame [OF this] w1 show ?thesis by auto
  qed
qed

lemma Overview_OVER_sent:
  assumes "Overview_OVER parseDate zl a b c = Return (res, c')"
    and "\<not> close c" and "br c = None" and "werr c = None"
  shows "wr c' \<noteq> wr c"
proof (cases "cmd 224 (''OVER '' @ rangeArg a b) c")
  case (Panic m)
  with assms(1) show ?thesis by (simp add: Overview_OVER_def)
next
  case (Return t)
  obtain code line eo c1 where t: "t = (code, line, eo, c1)" by (cases t) auto
  note over = Return [unfolded t]
  from assms(3) have d: "drain c = Return (None, c)" by (simp add: drain_def)
  from over have w1: "wr c1 = wr c @ [''OVER '' @ rangeArg a b @ [CR, LF]]"
    using assms(2,4) d by (cases rule: cmd_cases) simp_all
  show ?thesis
  proof (cases eo)
    case None
    with over assms(1) have "Overview_data parseDate zl line c1 = Return (res, c')"
      by (simp add: Overview_OVER_def)
    from Overview_data_frame [OF this] w1 show ?thesis by auto
  next
    case (Some err)
    show ?thesis
    proof (cases "\<exists>msg. err = Error 500 msg")
      case False
      with over Some assms(1) have "c' = c1"
        by (auto simp: Overview_OVER_def split: error.splits if_splits)
      with w1 show ?thesis by simp
    next
      case True
      then obtain msg where err: "err = Error 500 msg" ..
      show ?thesis
      proof (cases "cmd 224 (''XOVER '' @ rangeArg a b) c1")
        case (Panic m)
        with over Some err assms(1) show ?thesis by (simp add: Overview_OVER_def)
      next
        case (Return t2)
        obtain code2 xline xeo c2 where t2: "t2 = (code2, xline, xeo, c2)" by (cases t2) auto
        note xover = Return [unfolded t2]
        from cmd_frame [OF xover] w1 have w2: "wr c2 \<noteq> wr c" by auto
        show ?thesis
        proof (cases xeo)
          case None
          with over Some err xover assms(1)
          have "Overview_data parseDate zl xline c2 = Return (res, c')"
            by (simp add: Overview_OVER_def)
          from Overview_data_frame [OF this] w2 show ?thesis by auto
        next
          case (Some xerr)
          with over \<open>eo = Some err\<close> err xover assms(1) have "c' = c2"
            by (simp add: Overview_OVER_def)
          with w2 show ?thesis by simp
        qed
      qed
    qed
  qed
qed

lemma OVER_after_failure:
  assumes a: "\<not> xzverSupported c0 \<and> \<not> xzverUnsupported c0 \<and>
          cmd 224 (''XZVER '' @ rangeArg a b) c0 = Return (code, line, Some xzerr, c1) \<and>
          Overview parseDate xz zl a b c0 = Return (res0, c)"
    and r: "run parseDate xz zl calls c = Return c'"
    and o: "Overview parseDate xz zl from_n to_n c' = Return (res, c'')"
  shows "wr c'' = wr c' \<or>
         wr c'' = wr c' @ [''OVER '' @ rangeArg from_n to_n @ [CR, LF]] \<or>
         wr c'' = wr c' @ [''OVER '' @ rangeArg from_n to_n @ [CR, LF],
                           ''XOVER '' @ rangeArg from_n to_n @ [CR, LF]]"
    and "\<not> close c' \<and> br c' = None \<and> werr c' = None \<Longrightarrow> wr c'' \<noteq> wr c'"
proof -
  from a have xz: "cmd 224 (''XZVER '' @ rangeArg a b) c0 = Return (code, line, Some xzerr, c1)"
    and c0: "\<not> xzverSupported c0" "\<not> xzverUnsupported c0"
    and ov: "Overview parseDate xz zl a b c0 = Return (res0, c)"
    by blast+
  from c0(2) xz ov
  have "Overview_OVER parseDate zl a b (c1\<lparr>xzverUnsupported := True\<rparr>) = Return (res0, c)"
    by (simp add: Overview_def)
  from Overview_OVER_frame [OF this] cmd_frame [OF xz] c0(1)
  have c: "xzverUnsupported c" "\<not> xzverSupported c" by simp_all
  from run_keeps_unsupported [OF c r]
  have c': "xzverUnsupported c'" "\<not> xzverSupported c'" by simp_all
  with o have over: "Overview_OVER parseDate zl from_n to_n c' = Return (res, c'')"
    by (simp add: Overview_def)
  from Overview_OVER_frame [OF over]
  show "wr c'' = wr c' \<or>
        wr c'' = wr c' @ [''OVER '' @ rangeArg from_n to_n @ [CR, LF]] \<or>
        wr c'' = wr c' @ [''OVER '' @ rangeArg from_n to_n @ [CR, LF],
                          ''XOVER '' @ rangeArg from_n to_n @ [CR, LF]]"
    by simp
  show "wr c'' \<noteq> wr c'" if "\<not> close c' \<and> br c' = None \<and> werr c' = None"
  proof -
    from that have "\<not> close c'" "br c' = None" "werr c' = None" by simp_all
    with over show ?thesis by (rule Overview_OVER_sent)
  qed
qed

text \<open>
  C5, amended. On a connection where XZVER has not succeeded (\<open>xzverSupported\<close> is unset), let
  an overview try XZVER and the command return an error. Then, whatever calls the session
  makes afterwards, a later overview that returns has sent no XZVER: it has written nothing,
  or OVER, or OVER and then XOVER; and it has written OVER when the connection is open, no
  body is left to discard and writing does not fail. On a connection where XZVER has succeeded
  (\<open>xzverSupported\<close> is set), whatever calls the session makes, also overviews in which XZVER
  fails, a later overview that returns has written nothing or has written XZVER first; and
  it has written XZVER first when the connection is open, no body is left to discard and
  writing does not fail.
\<close>

theorem XZVER_not_retried:
  assumes "run parseDate xz zl calls c = Return c'"
    and "Overview parseDate xz zl from_n to_n c' = Return (res, c'')"
  shows "(\<not> xzverSupported c0 \<and> \<not> xzverUnsupported c0 \<and>
          cmd 224 (''XZVER '' @ rangeArg a b) c0 = Return (code, line, Some xzerr, c1) \<and>
          Overview parseDate xz zl a b c0 = Return (res0, c) \<longrightarrow>
            (wr c'' = wr c' \<or>
             wr c'' = wr c' @ [''OVER '' @ rangeArg from_n to_n @ [CR, LF]] \<or>
             wr c'' = wr c' @ [''OVER '' @ rangeArg from_n to_n @ [CR, LF],
                               ''XOVER '' @ rangeArg from_n to_n @ [CR, LF]]) \<and>
            (\<not> close c' \<and> br c' = None \<and> werr c' = None \<longrightarrow> wr c'' \<noteq> wr c')) \<and>
         (xzverSupported c \<longrightarrow>
            (wr c'' = wr c' \<or>
             (\<exists>ws. wr c'' = wr c' @ (''XZVER '' @ rangeArg from_n to_n @ [CR, LF]) # ws)) \<and>
            (\<not> close c' \<and> br c' = None \<and> werr c' = None \<longrightarrow>
             (\<exists>ws. wr c'' = wr c' @ (''XZVER '' @ rangeArg from_n to_n @ [CR, LF]) # ws)))"
proof (intro conjI impI)
  assume a: "\<not> xzverSupported c0 \<and> \<not> xzverUnsupported c0 \<and>
          cmd 224 (''XZVER '' @ rangeArg a b) c0 = Return (code, line, Some xzerr, c1) \<and>
          Overview parseDate xz zl a b c0 = Return (res0, c)"
  from a assms show "wr c'' = wr c' \<or>
        wr c'' = wr c' @ [''OVER '' @ rangeArg from_n to_n @ [CR, LF]] \<or>
        wr c'' = wr c' @ [''OVER '' @ rangeArg from_n to_n @ [CR, LF],
                          ''XOVER '' @ rangeArg from_n to_n @ [CR, LF]]"
    by (rule OVER_after_failure(1))
next
  assume a: "\<not> xzverSupported c0 \<and> \<not> xzverUnsupported c0 \<and>
          cmd 224 (''XZVER '' @ rangeArg a b) c0 = Return (code, line, Some xzerr, c1) \<and>
          Overview parseDate xz zl a b c0 = Return (res0, c)"
    and h: "\<not> close c' \<and> br c' = None \<and> werr c' = None"
  from a assms h show "wr c'' \<noteq> wr c'"
    by (rule OVER_after_failure(2))
next
  assume "xzverSupported c"
  from run_keeps_supported [OF this assms(1)] have "\<not> xzverUnsupported c' \<or> xzverSupported c'" ..
  from Overview_XZVER_first [OF this assms(2)]
  show "wr c'' = wr c' \<or>
        (\<exists>ws. wr c'' = wr c' @ (''XZVER '' @ rangeArg from_n to_n @ [CR, LF]) # ws)" .
next
  assume "xzverSupported c" and h: "\<not> close c' \<and> br c' = None \<and> werr c' = None"
  from run_keeps_supported [OF this(1) assms(1)]
  have g: "\<not> xzverUnsupported c' \<or> xzverSupported c'" ..
  from h have "\<not> close c'" "br c' = None" "werr c' = None" by simp_all
  with g assms(2)
  show "\<exists>ws. wr c'' = wr c' @ (''XZVER '' @ rangeArg from_n to_n @ [CR, LF]) # ws"
    by (rule Overview_XZVER_sent)
qed

text \<open>Two sessions. In the first a fresh connection has its XZVER refused, selects a group
  and asks for an overview again. In the second XZVER has succeeded once; it is refused in
  the next overview and sent again in the one after that.\<close>

definition retry_input :: string where
  "retry_input = ''500 a'' @ [CR, LF] @ ''400 b'' @ [CR, LF] @ ''211 1 1 1 x'' @ [CR, LF] @
     ''224 ok'' @ [CR, LF] @ ''.'' @ [CR, LF]"

definition failed_once :: Conn where
  "failed_once =
     (fresh (''211 1 1 1 x'' @ [CR, LF] @ ''224 ok'' @ [CR, LF] @ ''.'' @ [CR, LF]))
       \<lparr>wr := [''XZVER 1-2'' @ [CR, LF], ''OVER 1-2'' @ [CR, LF]], xzverUnsupported := True\<rparr>"

definition in_group :: Conn where
  "in_group =
     (fresh (''224 ok'' @ [CR, LF] @ ''.'' @ [CR, LF]))
       \<lparr>wr := [''XZVER 1-2'' @ [CR, LF], ''OVER 1-2'' @ [CR, LF], ''GROUP x'' @ [CR, LF]],
         xzverUnsupported := True\<rparr>"

definition proven :: Conn where
  "proven =
     (fresh (''500 no'' @ [CR, LF] @ ''400 no'' @ [CR, LF] @ ''500 no'' @ [CR, LF] @
        ''400 no'' @ [CR, LF]))
       \<lparr>wr := [''XZVER 1-2'' @ [CR, LF]], xzverSupported := True\<rparr>"

definition proven_failed :: Conn where
  "proven_failed =
     (fresh (''500 no'' @ [CR, LF] @ ''400 no'' @ [CR, LF]))
       \<lparr>wr := [''XZVER 1-2'' @ [CR, LF], ''XZVER 1-2'' @ [CR, LF], ''OVER 1-2'' @ [CR, LF]],
         xzverUnsupported := True, xzverSupported := True\<rparr>"

lemma not_retried_ex1:
  "cmd 224 (''XZVER '' @ rangeArg 1 2) (fresh retry_input) =
     Return (500, ''a'', Some (Error 500 ''a''),
       (fresh (''400 b'' @ [CR, LF] @ ''211 1 1 1 x'' @ [CR, LF] @ ''224 ok'' @ [CR, LF] @
          ''.'' @ [CR, LF]))\<lparr>wr := [''XZVER 1-2'' @ [CR, LF]]\<rparr>)"
  by code_simp

lemma not_retried_ex2:
  "Overview nodate xz0 zl0 1 2 (fresh retry_input) = Return (Inl (Error 400 ''b''), failed_once)"
  by code_simp

lemma not_retried_ex3:
  "run nodate xz0 zl0 [SelectGroup ''x''] failed_once = Return in_group"
  by code_simp

lemma not_retried_ex4:
  "Overview nodate xz0 zl0 3 4 in_group =
     Return (Inr [], in_group\<lparr>rd := \<lparr>pending = [], fin = EOF\<rparr>,
                               wr := wr in_group @ [''OVER 3-4'' @ [CR, LF]]\<rparr>)"
  by code_simp

lemma retried_ex1: "run nodate xz0 zl0 [GetOverview 1 2] proven = Return proven_failed"
  by code_simp

lemma retried_ex2:
  "Overview nodate xz0 zl0 1 2 proven_failed =
     Return (Inl (Error 400 ''no''),
       proven_failed\<lparr>rd := \<lparr>pending = [], fin = EOF\<rparr>,
                      wr := wr proven_failed @ [''XZVER 1-2'' @ [CR, LF], ''OVER 1-2'' @ [CR, LF]]\<rparr>)"
  by code_simp

theorem XZVER_not_retried_witness:
  "Overview nodate xz0 zl0 1 2 (fresh retry_input) = Return (Inl (Error 400 ''b''), failed_once) \<and>
   run nodate xz0 zl0 [SelectGroup ''x''] failed_once = Return in_group \<and>
   Overview nodate xz0 zl0 3 4 in_group =
     Return (Inr [], in_group\<lparr>rd := \<lparr>pending = [], fin = EOF\<rparr>,
                               wr := wr in_group @ [''OVER 3-4'' @ [CR, LF]]\<rparr>) \<and>
   (wr (in_group\<lparr>rd := \<lparr>pending = [], fin = EOF\<rparr>,
                     wr := wr in_group @ [''OVER 3-4'' @ [CR, LF]]\<rparr>) = wr in_group \<or>
    wr (in_group\<lparr>rd := \<lparr>pending = [], fin = EOF\<rparr>,
                     wr := wr in_group @ [''OVER 3-4'' @ [CR, LF]]\<rparr>) =
      wr in_group @ [''OVER '' @ rangeArg 3 4 @ [CR, LF]] \<or>
    wr (in_group\<lparr>rd := \<lparr>pending = [], fin = EOF\<rparr>,
                     wr := wr in_group @ [''OVER 3-4'' @ [CR, LF]]\<rparr>) =
      wr in_group @ [''OVER '' @ rangeArg 3 4 @ [CR, LF], ''XOVER '' @ rangeArg 3 4 @ [CR, LF]]) \<and>
   \<not> close in_group \<and> br in_group = None \<and> werr in_group = None \<and>
   wr (in_group\<lparr>rd := \<lparr>pending = [], fin = EOF\<rparr>,
                    wr := wr in_group @ [''OVER 3-4'' @ [CR, LF]]\<rparr>) \<noteq> wr in_group \<and>
   xzverSupported proven \<and>
   run nodate xz0 zl0 [GetOverview 1 2] proven = Return proven_failed \<and>
   \<not> close proven_failed \<and> br proven_failed = None \<and> werr proven_failed = None \<and>
   (\<exists>ws. wr (proven_failed\<lparr>rd := \<lparr>pending = [], fin = EOF\<rparr>,
                 wr := wr proven_failed @ [''XZVER 1-2'' @ [CR, LF], ''OVER 1-2'' @ [CR, LF]]\<rparr>) =
         wr proven_failed @ (''XZVER '' @ rangeArg 1 2 @ [CR, LF]) # ws)"
proof -
  have 1: "\<not> xzverSupported (fresh retry_input)" "\<not> xzverUnsupported (fresh retry_input)"
    by (simp_all add: fresh_def)
  have 2: "xzverSupported proven" by (simp add: proven_def fresh_def)
  have 3: "\<not> close proven_failed \<and> br proven_failed = None \<and> werr proven_failed = None"
    by (simp add: proven_failed_def fresh_def)
  have 4: "\<not> close in_group \<and> br in_group = None \<and> werr in_group = None"
    by (simp add: in_group_def fresh_def)
  from XZVER_not_retried [OF not_retried_ex3 not_retried_ex4,
      of "fresh retry_input" 1 2 500 "''a''" "Error 500 ''a''" _ "Inl (Error 400 ''b'')"]
    1 not_retried_ex1 not_retried_ex2 4
  have "(wr (in_group\<lparr>rd := \<lparr>pending = [], fin = EOF\<rparr>,
                      wr := wr in_group @ [''OVER 3-4'' @ [CR, LF]]\<rparr>) = wr in_group \<or>
        wr (in_group\<lparr>rd := \<lparr>pending = [], fin = EOF\<rparr>,
                      wr := wr in_group @ [''OVER 3-4'' @ [CR, LF]]\<rparr>) =
          wr in_group @ [''OVER '' @ rangeArg 3 4 @ [CR, LF]] \<or>
        wr (in_group\<lparr>rd := \<lparr>pending = [], fin = EOF\<rparr>,
                      wr := wr in_group @ [''OVER 3-4'' @ [CR, LF]]\<rparr>) =
          wr in_group @ [''OVER '' @ rangeArg 3 4 @ [CR, LF], ''XOVER '' @ rangeArg 3 4 @ [CR, LF]]) \<and>
        wr (in_group\<lparr>rd := \<lparr>pending = [], fin = EOF\<rparr>,
                      wr := wr in_group @ [''OVER 3-4'' @ [CR, LF]]\<rparr>) \<noteq> wr in_group"
    by blast
  moreover from XZVER_not_retried [OF retried_ex1 retried_ex2] 2 3
  have "\<exists>ws. wr (proven_failed\<lparr>rd := \<lparr>pending = [], fin = EOF\<rparr>,
                 wr := wr proven_failed @ [''XZVER 1-2'' @ [CR, LF], ''OVER 1-2'' @ [CR, LF]]\<rparr>) =
         wr proven_failed @ (''XZVER '' @ rangeArg 1 2 @ [CR, LF]) # ws"
    by blast
  ultimately show ?thesis
    using not_retried_ex2 not_retried_ex3 not_retried_ex4 retried_ex1 2 3 4 by blast
qed

text \<open>
  C5, counterexample. On a connection where XZVER has succeeded before, XZVER is tried again
  after it has failed. Three overviews
  on a fresh connection: the server accepts the first XZVER, refuses the second (the call
  goes on with OVER), and the third call writes XZVER again.
\<close>

definition again_input :: string where
  "again_input = ''224 ok'' @ [CR, LF] @ ''.'' @ [CR, LF] @ ''500 no'' @ [CR, LF] @
     ''400 no'' @ [CR, LF] @ ''500 no'' @ [CR, LF] @ ''400 no'' @ [CR, LF]"

theorem XZVER_retried_counterexample:
  "run nodate xz0 zl0 [GetOverview 1 2, GetOverview 1 2] (fresh again_input) =
     Return ((fresh (''500 no'' @ [CR, LF] @ ''400 no'' @ [CR, LF]))
       \<lparr>wr := [''XZVER 1-2'' @ [CR, LF], ''XZVER 1-2'' @ [CR, LF], ''OVER 1-2'' @ [CR, LF]],
         xzverUnsupported := True, xzverSupported := True\<rparr>) \<and>
   Overview nodate xz0 zl0 1 2
     ((fresh (''500 no'' @ [CR, LF] @ ''400 no'' @ [CR, LF]))
       \<lparr>wr := [''XZVER 1-2'' @ [CR, LF], ''XZVER 1-2'' @ [CR, LF], ''OVER 1-2'' @ [CR, LF]],
         xzverUnsupported := True, xzverSupported := True\<rparr>) =
     Return (Inl (Error 400 ''no''), (fresh [])
       \<lparr>wr := [''XZVER 1-2'' @ [CR, LF], ''XZVER 1-2'' @ [CR, LF], ''OVER 1-2'' @ [CR, LF],
               ''XZVER 1-2'' @ [CR, LF], ''OVER 1-2'' @ [CR, LF]],
         xzverUnsupported := True, xzverSupported := True\<rparr>)"
  by code_simp

section \<open>Dot-terminated blocks: framing and reading back\<close>

lemma cutLine_line: "d \<notin> set x \<Longrightarrow> cutLine d (x @ d # tl_in) = Some (x @ [d], tl_in)"
  by (induction x) auto

lemma cutLine_none: "d \<notin> set t \<Longrightarrow> cutLine d t = None"
  by (induction t) auto

text \<open>What \<open>Read\<close> makes of one raw line.\<close>

definition canonLine :: "string \<Rightarrow> string" where
  "canonLine w = (if w ! (length w - 2) = CR then take (length w - 2) w @ [LF] else w)"

definition decodeLine :: "string \<Rightarrow> string" where
  "decodeLine w = (if HasPrefix (canonLine w) ''..'' then tl (canonLine w) else canonLine w)"

lemma Read_raw:
  assumes "ReadBytes LF cr = (w, None, cr')" and "2 \<le> length w"
    and "canonLine w \<noteq> [CHR ''.'', LF]"
  shows "Read n \<lparr>eof = False, buf = []\<rparr> cr =
     Return (take n (decodeLine w), None, \<lparr>eof = False, buf = drop n (decodeLine w)\<rparr>, cr')"
  using assms unfolding Read_def decodeLine_def canonLine_def by (simp add: Let_def)

lemma ReadAll_buffer:
  "ReadAll k \<lparr>eof = False, buf = b\<rparr> cr acc = ReadAll k \<lparr>eof = False, buf = []\<rparr> cr (acc @ b)"
proof (induction "length b" arbitrary: b acc rule: less_induct)
  case less
  show ?case
  proof (cases "b = []")
    case True
    then show ?thesis by simp
  next
    case False
    have "ReadAll k \<lparr>eof = False, buf = b\<rparr> cr acc =
          ReadAll k \<lparr>eof = False, buf = drop (Suc k) b\<rparr> cr (acc @ take (Suc k) b)"
      using False by (subst ReadAll.simps) (simp add: Read_def)
    also have "\<dots> = ReadAll k \<lparr>eof = False, buf = []\<rparr> cr ((acc @ take (Suc k) b) @ drop (Suc k) b)"
      using False by (intro less) simp
    finally show ?thesis by simp
  qed
qed

lemma ReadAll_terminator:
  "ReadAll k \<lparr>eof = False, buf = []\<rparr> \<lparr>pending = CHR ''.'' # CR # LF # tl_in, fin = f\<rparr> acc =
     Return (acc, None, \<lparr>eof = True, buf = []\<rparr>, \<lparr>pending = tl_in, fin = f\<rparr>)"
  by (subst ReadAll.simps) (simp add: Read_def ReadBytes_def ReadString_def)


lemma canonLine_LF:
  assumes "y \<noteq> []"
  shows "canonLine (y @ [LF]) = (if last y = CR then butlast y @ [LF] else y @ [LF])"
proof -
  from assms obtain ys z where y: "y = ys @ [z]" by (metis append_butlast_last_id)
  show ?thesis unfolding y canonLine_def by (simp add: nth_append)
qed

lemma canonLine_not_terminator:
  assumes "y \<noteq> []" and "y \<noteq> ''.''" and "y \<noteq> [CHR ''.'', CR]"
  shows "canonLine (y @ [LF]) \<noteq> [CHR ''.'', LF]"
proof -
  from assms(1) obtain ys z where y: "y = ys @ [z]" by (metis append_butlast_last_id)
  from assms(2,3) show ?thesis unfolding canonLine_LF [OF assms(1)] unfolding y by auto
qed

lemma Read_line:
  assumes "LF \<notin> set y" and "y \<noteq> []" and "y \<noteq> ''.''" and "y \<noteq> [CHR ''.'', CR]"
  shows "Read n \<lparr>eof = False, buf = []\<rparr> \<lparr>pending = y @ LF # tl_in, fin = f\<rparr> =
        Return (take n (decodeLine (y @ [LF])), None,
                \<lparr>eof = False, buf = drop n (decodeLine (y @ [LF]))\<rparr>, \<lparr>pending = tl_in, fin = f\<rparr>)"
proof (rule Read_raw)
  show "ReadBytes LF \<lparr>pending = y @ LF # tl_in, fin = f\<rparr> =
      (y @ [LF], None, \<lparr>pending = tl_in, fin = f\<rparr>)"
    using assms(1) by (simp add: ReadBytes_def ReadString_def cutLine_line)
  show "2 \<le> length (y @ [LF])" using assms(2) by (cases y) auto
  show "canonLine (y @ [LF]) \<noteq> [CHR ''.'', LF]"
    using assms(2,3,4) by (rule canonLine_not_terminator)
qed

lemma ReadAll_line:
  assumes "LF \<notin> set y" and "y \<noteq> []" and "y \<noteq> ''.''" and "y \<noteq> [CHR ''.'', CR]"
  shows "ReadAll k \<lparr>eof = False, buf = []\<rparr> \<lparr>pending = y @ LF # tl_in, fin = f\<rparr> acc =
         ReadAll k \<lparr>eof = False, buf = []\<rparr> \<lparr>pending = tl_in, fin = f\<rparr> (acc @ decodeLine (y @ [LF]))"
proof -
  let ?d = "decodeLine (y @ [LF])"
  have "ReadAll k \<lparr>eof = False, buf = []\<rparr> \<lparr>pending = y @ LF # tl_in, fin = f\<rparr> acc =
        ReadAll k \<lparr>eof = False, buf = drop (Suc k) ?d\<rparr> \<lparr>pending = tl_in, fin = f\<rparr>
          (acc @ take (Suc k) ?d)"
    by (subst ReadAll.simps) (simp add: Read_line [OF assms])
  also have "\<dots> = ReadAll k \<lparr>eof = False, buf = []\<rparr> \<lparr>pending = tl_in, fin = f\<rparr>
          ((acc @ take (Suc k) ?d) @ drop (Suc k) ?d)"
    by (rule ReadAll_buffer)
  finally show ?thesis by simp
qed


text \<open>The line that the loop of \<open>RawPost\<close> writes for the line \<open>x\<close> of the article.\<close>

definition stuffLine :: "string \<Rightarrow> string" where
  "stuffLine x = (if HasPrefix x ''.'' then ''.'' else []) @ x @ [CR, LF]"

lemma HasSuffix_LF: "HasSuffix s [LF] \<longleftrightarrow> s \<noteq> [] \<and> last s = LF"
proof (cases s rule: rev_cases)
  case Nil
  then show ?thesis by (simp add: HasSuffix_def)
next
  case (snoc ys y)
  then show ?thesis by (auto simp: HasSuffix_def)
qed

lemma RawPost_loop_step:
  assumes "ReadString LF src = (x @ [LF], None, src')" and "werr c = None"
  shows "RawPost_loop src c = RawPost_loop src' (c\<lparr>wr := wr c @ [stuffLine x]\<rparr>)"
  by (subst RawPost_loop.simps) (simp add: assms HasSuffix_LF Fprintf_def stuffLine_def)

lemma RawPost_loop_writes:
  assumes "werr c = None" and "\<forall>x\<in>set xs. LF \<notin> set x" and "LF \<notin> set t"
  shows "RawPost_loop \<lparr>pending = concat (map (\<lambda>x. x @ [LF]) xs) @ t, fin = EOF\<rparr> c =
     (None, c\<lparr>wr := wr c @ map stuffLine xs @ (if t = [] then [] else [stuffLine t])\<rparr>)"
  using assms(1,2)
proof (induction xs arbitrary: c)
  case Nil
  have rs: "ReadString LF \<lparr>pending = t, fin = EOF\<rparr> = (t, Some (IOError EOF), \<lparr>pending = [], fin = EOF\<rparr>)"
    using assms(3) by (simp add: ReadString_def cutLine_none)
  show ?case
  proof (cases "t = []")
    case True
    with rs show ?thesis by (subst RawPost_loop.simps) simp
  next
    case False
    with assms(3) have ns: "\<not> HasSuffix t [LF]"
      unfolding HasSuffix_LF by (metis last_in_set)
    from False rs ns Nil.prems(1) show ?thesis
      by (subst RawPost_loop.simps) (simp add: Fprintf_def stuffLine_def)
  qed
next
  case (Cons x xs)
  from Cons.prems have x: "LF \<notin> set x" and xs: "\<forall>x\<in>set xs. LF \<notin> set x" by simp_all
  let ?rest = "concat (map (\<lambda>x. x @ [LF]) xs) @ t"
  let ?c' = "c\<lparr>wr := wr c @ [stuffLine x]\<rparr>"
  have rs: "ReadString LF \<lparr>pending = concat (map (\<lambda>x. x @ [LF]) (x # xs)) @ t, fin = EOF\<rparr> =
      (x @ [LF], None, \<lparr>pending = ?rest, fin = EOF\<rparr>)"
    using x by (simp add: ReadString_def cutLine_line)
  have "RawPost_loop \<lparr>pending = concat (map (\<lambda>x. x @ [LF]) (x # xs)) @ t, fin = EOF\<rparr> c =
        RawPost_loop \<lparr>pending = ?rest, fin = EOF\<rparr> ?c'"
    using rs Cons.prems(1) by (rule RawPost_loop_step)
  also have "\<dots> = (None, ?c'\<lparr>wr := wr ?c' @ map stuffLine xs @ (if t = [] then [] else [stuffLine t])\<rparr>)"
    using Cons.prems(1) xs by (intro Cons.IH) simp_all
  finally show ?case by simp
qed

lemma decode_stuffLine:
  assumes "LF \<notin> set x"
  defines "y \<equiv> (if HasPrefix x ''.'' then ''.'' else []) @ x @ [CR]"
  shows "LF \<notin> set y" and "y \<noteq> []" and "y \<noteq> ''.''" and "y \<noteq> [CHR ''.'', CR]"
    and "decodeLine (y @ [LF]) = x @ [LF]" and "stuffLine x = y @ [LF]"
proof -
  show "LF \<notin> set y" using assms(1) by (simp add: y_def)
  show ne: "y \<noteq> []" by (simp add: y_def)
  show "y \<noteq> ''.''" by (cases x) (auto simp: y_def HasPrefix_def)
  show "y \<noteq> [CHR ''.'', CR]" by (cases x) (auto simp: y_def HasPrefix_def)
  show "stuffLine x = y @ [LF]" by (simp add: stuffLine_def y_def)
  have "canonLine (y @ [LF]) = (if HasPrefix x ''.'' then ''.'' else []) @ x @ [LF]"
    unfolding canonLine_LF [OF ne] by (simp add: y_def butlast_append)
  then show "decodeLine (y @ [LF]) = x @ [LF]"
    unfolding decodeLine_def by (cases x) (auto simp: HasPrefix_def)
qed

lemma ReadAll_stuffLine:
  assumes "LF \<notin> set x"
  shows "ReadAll k \<lparr>eof = False, buf = []\<rparr> \<lparr>pending = stuffLine x @ tl_in, fin = f\<rparr> acc =
         ReadAll k \<lparr>eof = False, buf = []\<rparr> \<lparr>pending = tl_in, fin = f\<rparr> (acc @ x @ [LF])"
proof -
  note d = decode_stuffLine [OF assms]
  from ReadAll_line [OF d(1,2,3,4), of k tl_in f acc] show ?thesis
    unfolding d(5) d(6) by simp
qed

lemma ReadAll_stuffLines:
  assumes "\<forall>x\<in>set xs. LF \<notin> set x"
  shows "ReadAll k \<lparr>eof = False, buf = []\<rparr> \<lparr>pending = concat (map stuffLine xs) @ tl_in, fin = f\<rparr> acc =
         ReadAll k \<lparr>eof = False, buf = []\<rparr> \<lparr>pending = tl_in, fin = f\<rparr>
           (acc @ concat (map (\<lambda>x. x @ [LF]) xs))"
  using assms
proof (induction xs arbitrary: acc)
  case Nil
  then show ?case by simp
next
  case (Cons x xs)
  then have x: "LF \<notin> set x" and xs: "\<forall>x\<in>set xs. LF \<notin> set x" by simp_all
  have "ReadAll k \<lparr>eof = False, buf = []\<rparr>
          \<lparr>pending = concat (map stuffLine (x # xs)) @ tl_in, fin = f\<rparr> acc =
        ReadAll k \<lparr>eof = False, buf = []\<rparr>
          \<lparr>pending = stuffLine x @ (concat (map stuffLine xs) @ tl_in), fin = f\<rparr> acc"
    by simp
  also have "\<dots> = ReadAll k \<lparr>eof = False, buf = []\<rparr>
          \<lparr>pending = concat (map stuffLine xs) @ tl_in, fin = f\<rparr> (acc @ x @ [LF])"
    by (rule ReadAll_stuffLine [OF x])
  also have "\<dots> = ReadAll k \<lparr>eof = False, buf = []\<rparr> \<lparr>pending = tl_in, fin = f\<rparr>
           ((acc @ x @ [LF]) @ concat (map (\<lambda>x. x @ [LF]) xs))"
    by (rule Cons.IH [OF xs])
  finally show ?case by simp
qed

lemma lines_decomposition:
  "\<exists>xs t. s = concat (map (\<lambda>x. x @ [LF]) xs) @ t \<and> (\<forall>x\<in>set xs. LF \<notin> set x) \<and> LF \<notin> set t"
proof (induction s)
  case Nil
  have "[] = concat (map (\<lambda>x. x @ [LF]) []) @ [] \<and> (\<forall>x\<in>set ([]::string list). LF \<notin> set x) \<and> LF \<notin> set []"
    by simp
  then show ?case by blast
next
  case (Cons c s)
  then obtain xs t where s: "s = concat (map (\<lambda>x. x @ [LF]) xs) @ t"
    and xs: "\<forall>x\<in>set xs. LF \<notin> set x" and t: "LF \<notin> set t" by blast
  show ?case
  proof (cases "c = LF")
    case True
    with s xs t have "c # s = concat (map (\<lambda>x. x @ [LF]) ([] # xs)) @ t \<and>
        (\<forall>x\<in>set ([] # xs). LF \<notin> set x) \<and> LF \<notin> set t" by simp
    then show ?thesis by blast
  next
    case False
    show ?thesis
    proof (cases xs)
      case Nil
      with s xs t False have "c # s = concat (map (\<lambda>x. x @ [LF]) []) @ (c # t) \<and>
        (\<forall>x\<in>set ([]::string list). LF \<notin> set x) \<and> LF \<notin> set (c # t)" by simp
      then show ?thesis by blast
    next
      case (Cons x xs')
      with s xs t False have "c # s = concat (map (\<lambda>x. x @ [LF]) ((c # x) # xs')) @ t \<and>
        (\<forall>x\<in>set ((c # x) # xs'). LF \<notin> set x) \<and> LF \<notin> set t" by simp
      then show ?thesis by blast
    qed
  qed
qed

lemma lines_completed:
  assumes "s = concat (map (\<lambda>x. x @ [LF]) xs) @ t" and "LF \<notin> set t"
  shows "concat (map (\<lambda>x. x @ [LF]) xs) @ (if t = [] then [] else t @ [LF]) =
         (if s = [] \<or> last s = LF then s else s @ [LF])"
proof (cases "t = []")
  case True
  show ?thesis
  proof (cases xs rule: rev_cases)
    case Nil
    with True assms show ?thesis by simp
  next
    case (snoc ys y)
    with True assms show ?thesis by simp
  qed
next
  case False
  with assms(2) have "last t \<noteq> LF" by (metis last_in_set)
  with False assms(1) show ?thesis by simp
qed


text \<open>
  C2, amended. The loop of \<open>RawPost\<close> frames an article \<open>content\<close>, read to its end, as the
  lines \<open>ws\<close>; \<open>RawPost\<close> then sends the terminator line, a dot and CRLF. A body reader
  that reads the framed block to its end (\<open>ReadAll\<close>, with any size of buffer) returns
  \<open>content\<close> itself when \<open>content\<close> is empty or ends with LF, and \<open>content\<close> with an LF added
  otherwise; it has consumed the terminator and nothing behind it, and every later \<open>Read\<close>
  reports \<open>EOF\<close>.
\<close>

theorem dot_block_roundtrip:
  assumes "werr c = None"
  shows "\<exists>ws. RawPost_loop \<lparr>pending = content, fin = EOF\<rparr> c = (None, c\<lparr>wr := wr c @ ws\<rparr>) \<and>
     ReadAll k \<lparr>eof = False, buf = []\<rparr>
        \<lparr>pending = concat ws @ ''.'' @ [CR, LF] @ rest, fin = f\<rparr> [] =
       Return (if content = [] \<or> last content = LF then content else content @ [LF], None,
               \<lparr>eof = True, buf = []\<rparr>, \<lparr>pending = rest, fin = f\<rparr>) \<and>
     (\<forall>n cr. Read n \<lparr>eof = True, buf = []\<rparr> cr =
        Return ([], Some (IOError EOF), \<lparr>eof = True, buf = []\<rparr>, cr))"
proof -
  from lines_decomposition [of content] obtain xs t
    where content: "content = concat (map (\<lambda>x. x @ [LF]) xs) @ t"
      and xs: "\<forall>x\<in>set xs. LF \<notin> set x" and t: "LF \<notin> set t" by blast
  define ls where "ls = xs @ (if t = [] then [] else [t])"
  have ls: "\<forall>x\<in>set ls. LF \<notin> set x" using xs t by (simp add: ls_def)
  have post: "RawPost_loop \<lparr>pending = content, fin = EOF\<rparr> c =
      (None, c\<lparr>wr := wr c @ map stuffLine ls\<rparr>)"
    unfolding content using RawPost_loop_writes [OF assms xs t] by (simp add: ls_def)
  have "ReadAll k \<lparr>eof = False, buf = []\<rparr>
        \<lparr>pending = concat (map stuffLine ls) @ CHR ''.'' # CR # LF # rest, fin = f\<rparr> [] =
      ReadAll k \<lparr>eof = False, buf = []\<rparr> \<lparr>pending = CHR ''.'' # CR # LF # rest, fin = f\<rparr>
        ([] @ concat (map (\<lambda>x. x @ [LF]) ls))"
    by (rule ReadAll_stuffLines [OF ls])
  also have "\<dots> = Return ([] @ concat (map (\<lambda>x. x @ [LF]) ls), None,
      \<lparr>eof = True, buf = []\<rparr>, \<lparr>pending = rest, fin = f\<rparr>)"
    by (rule ReadAll_terminator)
  also have "[] @ concat (map (\<lambda>x. x @ [LF]) ls) =
      concat (map (\<lambda>x. x @ [LF]) xs) @ (if t = [] then [] else t @ [LF])"
    by (simp add: ls_def)
  also have "\<dots> = (if content = [] \<or> last content = LF then content else content @ [LF])"
    using content t by (rule lines_completed)
  finally have dec: "ReadAll k \<lparr>eof = False, buf = []\<rparr>
        \<lparr>pending = concat (map stuffLine ls) @ ''.'' @ [CR, LF] @ rest, fin = f\<rparr> [] =
       Return (if content = [] \<or> last content = LF then content else content @ [LF], None,
               \<lparr>eof = True, buf = []\<rparr>, \<lparr>pending = rest, fin = f\<rparr>)"
    by simp
  have after: "\<forall>n cr. Read n \<lparr>eof = True, buf = []\<rparr> cr =
        Return ([], Some (IOError EOF), \<lparr>eof = True, buf = []\<rparr>, cr)"
    by (simp add: Read_def)
  from post dec after show ?thesis by blast
qed

text \<open>A whole run of \<open>RawPost\<close>: the command, the framed lines, and the terminator line that
  \<open>cmd\<close> writes for the command that is a dot.\<close>

lemma RawPost_example:
  "RawPost \<lparr>pending = ''.x'' @ [LF] @ ''y'' @ [CR, LF], fin = EOF\<rparr>
     (fresh (''340 send'' @ [CR, LF] @ ''240 ok'' @ [CR, LF])) =
   Return (None, (fresh [])\<lparr>wr := [''POST'' @ [CR, LF], ''..x'' @ [CR, LF], ''y'' @ [CR, CR, LF],
                                    ''.'' @ [CR, LF]]\<rparr>)"
  by code_simp

lemma roundtrip_ex:
  "RawPost_loop \<lparr>pending = ''.x'' @ [LF] @ ''y'' @ [CR, LF], fin = EOF\<rparr> (fresh []) =
     (None, (fresh [])\<lparr>wr := [''..x'' @ [CR, LF], ''y'' @ [CR, CR, LF]]\<rparr>)"
  by code_simp

theorem dot_block_roundtrip_witness:
  "ReadAll 511 \<lparr>eof = False, buf = []\<rparr>
     \<lparr>pending = concat [''..x'' @ [CR, LF], ''y'' @ [CR, CR, LF]] @ ''.'' @ [CR, LF] @ ''240 ok'',
      fin = EOF\<rparr> [] =
   Return (''.x'' @ [LF] @ ''y'' @ [CR, LF], None, \<lparr>eof = True, buf = []\<rparr>,
           \<lparr>pending = ''240 ok'', fin = EOF\<rparr>)"
proof -
  have 1: "werr (fresh []) = None" by (simp add: fresh_def)
  from dot_block_roundtrip [OF 1, of "''.x'' @ [LF] @ ''y'' @ [CR, LF]" 511 "''240 ok''" EOF]
  obtain ws where
    a: "RawPost_loop \<lparr>pending = ''.x'' @ [LF] @ ''y'' @ [CR, LF], fin = EOF\<rparr> (fresh []) =
          (None, (fresh [])\<lparr>wr := wr (fresh []) @ ws\<rparr>)"
    and b: "ReadAll 511 \<lparr>eof = False, buf = []\<rparr>
        \<lparr>pending = concat ws @ ''.'' @ [CR, LF] @ ''240 ok'', fin = EOF\<rparr> [] =
       Return (if ''.x'' @ [LF] @ ''y'' @ [CR, LF] = [] \<or> last (''.x'' @ [LF] @ ''y'' @ [CR, LF]) = LF
               then ''.x'' @ [LF] @ ''y'' @ [CR, LF] else (''.x'' @ [LF] @ ''y'' @ [CR, LF]) @ [LF], None,
               \<lparr>eof = True, buf = []\<rparr>, \<lparr>pending = ''240 ok'', fin = EOF\<rparr>)"
    by blast
  from a have "ws = [''..x'' @ [CR, LF], ''y'' @ [CR, CR, LF]]"
    unfolding roundtrip_ex by (simp add: fresh_def)
  with b show ?thesis by simp
qed

text \<open>
  C2, counterexample. The article \<open>a\<close>, without a final LF, is framed as the line \<open>a\<close> with
  CRLF; reading the block back gives \<open>a\<close> with an LF, not the article.
\<close>

theorem dot_block_roundtrip_counterexample:
  "RawPost_loop \<lparr>pending = ''a'', fin = EOF\<rparr> (fresh []) =
     (None, (fresh [])\<lparr>wr := [''a'' @ [CR, LF]]\<rparr>) \<and>
   ReadAll 511 \<lparr>eof = False, buf = []\<rparr>
     \<lparr>pending = concat [''a'' @ [CR, LF]] @ ''.'' @ [CR, LF], fin = EOF\<rparr> [] =
     Return (''a'' @ [LF], None, \<lparr>eof = True, buf = []\<rparr>, \<lparr>pending = [], fin = EOF\<rparr>) \<and>
   ''a'' @ [LF] \<noteq> ''a''"
  by code_simp

section \<open>A command after an unread body\<close>

lemma ReadAll_lines:
  assumes "\<forall>y\<in>set ys. LF \<notin> set y \<and> y \<noteq> [] \<and> y \<noteq> ''.'' \<and> y \<noteq> [CHR ''.'', CR]"
  shows "ReadAll k \<lparr>eof = False, buf = []\<rparr>
           \<lparr>pending = concat (map (\<lambda>y. y @ [LF]) ys) @ tl_in, fin = f\<rparr> acc =
         ReadAll k \<lparr>eof = False, buf = []\<rparr> \<lparr>pending = tl_in, fin = f\<rparr>
           (acc @ concat (map (\<lambda>y. decodeLine (y @ [LF])) ys))"
  using assms
proof (induction ys arbitrary: acc)
  case Nil
  then show ?case by simp
next
  case (Cons y ys)
  then have y: "LF \<notin> set y" "y \<noteq> []" "y \<noteq> ''.''" "y \<noteq> [CHR ''.'', CR]"
    and ys: "\<forall>y\<in>set ys. LF \<notin> set y \<and> y \<noteq> [] \<and> y \<noteq> ''.'' \<and> y \<noteq> [CHR ''.'', CR]"
    by simp_all
  have "ReadAll k \<lparr>eof = False, buf = []\<rparr>
          \<lparr>pending = concat (map (\<lambda>y. y @ [LF]) (y # ys)) @ tl_in, fin = f\<rparr> acc =
        ReadAll k \<lparr>eof = False, buf = []\<rparr>
          \<lparr>pending = y @ LF # (concat (map (\<lambda>y. y @ [LF]) ys) @ tl_in), fin = f\<rparr> acc"
    by simp
  also have "\<dots> = ReadAll k \<lparr>eof = False, buf = []\<rparr>
          \<lparr>pending = concat (map (\<lambda>y. y @ [LF]) ys) @ tl_in, fin = f\<rparr> (acc @ decodeLine (y @ [LF]))"
    by (rule ReadAll_line [OF y])
  also have "\<dots> = ReadAll k \<lparr>eof = False, buf = []\<rparr> \<lparr>pending = tl_in, fin = f\<rparr>
           ((acc @ decodeLine (y @ [LF])) @ concat (map (\<lambda>y. decodeLine (y @ [LF])) ys))"
    by (rule Cons.IH [OF ys])
  finally show ?case by simp
qed

lemma ReadAll_terminator_LF:
  "ReadAll k \<lparr>eof = False, buf = []\<rparr> \<lparr>pending = CHR ''.'' # LF # tl_in, fin = f\<rparr> acc =
     Return (acc, None, \<lparr>eof = True, buf = []\<rparr>, \<lparr>pending = tl_in, fin = f\<rparr>)"
  by (subst ReadAll.simps) (simp add: Read_def ReadBytes_def ReadString_def)

lemma cmd_after_drain:
  assumes "\<not> close c" and "drain c = Return (None, c1)"
  shows "cmd E s c = cmd E s c1"
proof -
  from drain_frame [OF assms(2)] assms(1) have "\<not> close c1" by simp
  moreover from drain_None_br [OF assms(2)] have "drain c1 = Return (None, c1)"
    by (simp add: drain_def)
  ultimately show ?thesis using assms by (simp add: cmd_def)
qed

text \<open>
  An unread body whose remaining lines are all at least two bytes long, followed by the
  terminator: \<open>cmd\<close> reads it all, whatever is left in the buffer of the body reader, and goes on
  as on a connection without a body reader whose input starts behind the terminator.
\<close>

lemma cmd_drains_body:
  assumes "\<not> close c" and "br c = Some \<lparr>eof = False, buf = b\<rparr>"
    and "rd c = \<lparr>pending = concat (map (\<lambda>y. y @ [LF]) ys) @ dot @ rest, fin = f\<rparr>"
    and "\<forall>y\<in>set ys. LF \<notin> set y \<and> y \<noteq> [] \<and> y \<noteq> ''.'' \<and> y \<noteq> [CHR ''.'', CR]"
    and "dot = [CHR ''.'', CR, LF] \<or> dot = [CHR ''.'', LF]"
  shows "cmd E s c = cmd E s (c\<lparr>rd := \<lparr>pending = rest, fin = f\<rparr>, br := None\<rparr>)"
proof -
  let ?in = "\<lparr>pending = concat (map (\<lambda>y. y @ [LF]) ys) @ dot @ rest, fin = f\<rparr>"
  let ?out = "b @ concat (map (\<lambda>y. decodeLine (y @ [LF])) ys)"
  have "ReadAll 511 \<lparr>eof = False, buf = b\<rparr> ?in [] = ReadAll 511 \<lparr>eof = False, buf = []\<rparr> ?in ([] @ b)"
    by (rule ReadAll_buffer)
  also have "\<dots> = ReadAll 511 \<lparr>eof = False, buf = []\<rparr> \<lparr>pending = dot @ rest, fin = f\<rparr> (([] @ b) @ concat (map (\<lambda>y. decodeLine (y @ [LF])) ys))"
    by (rule ReadAll_lines [OF assms(4)])
  also have "\<dots> = Return (([] @ b) @ concat (map (\<lambda>y. decodeLine (y @ [LF])) ys), None,
      \<lparr>eof = True, buf = []\<rparr>, \<lparr>pending = rest, fin = f\<rparr>)"
    using assms(5) ReadAll_terminator ReadAll_terminator_LF by auto
  finally have "discard \<lparr>eof = False, buf = b\<rparr> ?in =
      Return (None, \<lparr>eof = True, buf = []\<rparr>, \<lparr>pending = rest, fin = f\<rparr>)"
    by (simp add: discard_def)
  with assms(2,3) have "drain c = Return (None, c\<lparr>rd := \<lparr>pending = rest, fin = f\<rparr>, br := None\<rparr>)"
    by (simp add: drain_def)
  with assms(1) show ?thesis by (rule cmd_after_drain)
qed

lemma cmd_drain_error:
  assumes "\<not> close c" and "drain c = Return (Some e, c1)"
  shows "cmd E s c = Return (0, [], Some e, c1) \<and> wr c1 = wr c"
  using assms drain_frame [OF assms(2)] by (simp add: cmd_def)


text \<open>
  The drain of a body whose lines are all at least two bytes long. On a connection that is
  not closed, let the body reader be unread and the input hold the rest of the body, every
  line ending in LF and at least two bytes long, then the terminator line, then \<open>rest\<close>. A
  command behaves as on the connection with no body reader whose input is \<open>rest\<close>: the body
  is read through its terminator before the command is written, and the status line is read
  from \<open>rest\<close>. And when the drain returns an error, \<open>cmd\<close> returns that error and has written
  nothing.
\<close>

theorem cmd_drains_unread_body:
  assumes "\<not> close c"
  shows "(br c = Some \<lparr>eof = False, buf = b\<rparr> \<and>
          rd c = \<lparr>pending = concat (map (\<lambda>y. y @ [LF]) ys) @ dot @ rest, fin = f\<rparr> \<and>
          (\<forall>y\<in>set ys. LF \<notin> set y \<and> y \<noteq> [] \<and> y \<noteq> ''.'' \<and> y \<noteq> [CHR ''.'', CR]) \<and>
          (dot = [CHR ''.'', CR, LF] \<or> dot = [CHR ''.'', LF]) \<longrightarrow>
          cmd E s c = cmd E s (c\<lparr>rd := \<lparr>pending = rest, fin = f\<rparr>, br := None\<rparr>)) \<and>
         (\<forall>e c1. drain c = Return (Some e, c1) \<longrightarrow>
            cmd E s c = Return (0, [], Some e, c1) \<and> wr c1 = wr c)"
  using assms cmd_drains_body [of c b ys dot rest f E s] cmd_drain_error [of c _ _ E s]
  by blast

definition unread :: "string \<Rightarrow> ioerr \<Rightarrow> Conn" where
  "unread input e = \<lparr>rd = \<lparr>pending = input, fin = e\<rparr>, wr = [], werr = None,
     br = Some \<lparr>eof = False, buf = []\<rparr>, close = False, xzverUnsupported = False,
     xzverSupported = False\<rparr>"

lemma drains_ex1:
  "cmd 223 ''STAT 2'' ((unread (''223 2 <b@x>'' @ [CR, LF]) EOF)\<lparr>rd := \<lparr>pending = ''223 2 <b@x>'' @ [CR, LF], fin = EOF\<rparr>, br := None\<rparr>) =
   Return (223, ''2 <b@x>'', None, (fresh [])\<lparr>wr := [''STAT 2'' @ [CR, LF]]\<rparr>)"
  by code_simp

lemma drains_ex2:
  "drain (unread (''li'') (StreamError ''reset'')) =
     Return (Some (IOError (StreamError ''reset'')), unread [] (StreamError ''reset''))"
  by code_simp

theorem cmd_drains_unread_body_example:
  "cmd 223 ''STAT 2''
     (unread (concat (map (\<lambda>y. y @ [LF]) [''line'' @ [CR], ''..dot'' @ [CR]]) @ [CHR ''.'', CR, LF] @
              (''223 2 <b@x>'' @ [CR, LF])) EOF) =
     Return (223, ''2 <b@x>'', None, (fresh [])\<lparr>wr := [''STAT 2'' @ [CR, LF]]\<rparr>) \<and>
   cmd 223 ''STAT 2'' (unread (''li'') (StreamError ''reset'')) =
     Return (0, [], Some (IOError (StreamError ''reset'')), unread [] (StreamError ''reset''))"
proof
  let ?c = "unread (concat (map (\<lambda>y. y @ [LF]) [''line'' @ [CR], ''..dot'' @ [CR]]) @ [CHR ''.'', CR, LF] @
              (''223 2 <b@x>'' @ [CR, LF])) EOF"
  have 1: "\<not> close ?c" by (simp add: unread_def)
  have 2: "br ?c = Some \<lparr>eof = False, buf = []\<rparr> \<and>
     rd ?c = \<lparr>pending = concat (map (\<lambda>y. y @ [LF]) [''line'' @ [CR], ''..dot'' @ [CR]]) @
                [CHR ''.'', CR, LF] @ (''223 2 <b@x>'' @ [CR, LF]), fin = EOF\<rparr> \<and>
     (\<forall>y\<in>set [''line'' @ [CR], ''..dot'' @ [CR]]. LF \<notin> set y \<and> y \<noteq> [] \<and> y \<noteq> ''.'' \<and> y \<noteq> [CHR ''.'', CR]) \<and>
     ([CHR ''.'', CR, LF] = [CHR ''.'', CR, LF] \<or> [CHR ''.'', CR, LF] = [CHR ''.'', LF])"
    by (simp add: unread_def)
  from cmd_drains_unread_body [OF 1, of "[]" "[''line'' @ [CR], ''..dot'' @ [CR]]" "[CHR ''.'', CR, LF]"
      "''223 2 <b@x>'' @ [CR, LF]" EOF 223 "''STAT 2''"] 2
  have "cmd 223 ''STAT 2'' ?c =
      cmd 223 ''STAT 2'' (?c\<lparr>rd := \<lparr>pending = ''223 2 <b@x>'' @ [CR, LF], fin = EOF\<rparr>, br := None\<rparr>)"
    by blast
  also have "?c\<lparr>rd := \<lparr>pending = ''223 2 <b@x>'' @ [CR, LF], fin = EOF\<rparr>, br := None\<rparr> =
     (unread (''223 2 <b@x>'' @ [CR, LF]) EOF)\<lparr>rd := \<lparr>pending = ''223 2 <b@x>'' @ [CR, LF], fin = EOF\<rparr>, br := None\<rparr>"
    by (simp add: unread_def)
  finally show "cmd 223 ''STAT 2'' ?c =
     Return (223, ''2 <b@x>'', None, (fresh [])\<lparr>wr := [''STAT 2'' @ [CR, LF]]\<rparr>)"
    unfolding drains_ex1 .
next
  let ?c = "unread (''li'') (StreamError ''reset'')"
  have 1: "\<not> close ?c" by (simp add: unread_def)
  from cmd_drains_unread_body [OF 1, of _ _ _ _ _ 223 "''STAT 2''"] drains_ex2
  show "cmd 223 ''STAT 2'' ?c =
     Return (0, [], Some (IOError (StreamError ''reset'')), unread [] (StreamError ''reset''))"
    by blast
qed

text \<open>
  C7. A session with an unread body stream that holds a line that is a lone LF: the next
  command starts the drain, and \<open>Read\<close> indexes that line of one byte at \<^verbatim>\<open>len(b)-2\<close>. The call
  panics: the body is not read to its terminator, and no failure is returned to the caller.
\<close>

theorem cmd_drain_panics:
  "run nodate xz0 zl0 [Cmd 222 ''BODY 1'', Body, Cmd 223 ''STAT 2'']
     (fresh (''222 body'' @ [CR, LF] @ ''line'' @ [CR, LF] @ [LF] @ ''.'' @ [CR, LF] @
             ''223 2 <b@x>'' @ [CR, LF])) =
   Panic ''index out of range''"
  by code_simp

section \<open>Article headers: the values of each key\<close>

text \<open>The values of the key \<open>k\<close> in a list of pairs, in their order; \<open>None\<close> when there is none.\<close>

definition valuesOf :: "(string \<times> string) list \<Rightarrow> string \<rightharpoonup> string list" where
  "valuesOf ps k = (case map snd (filter (\<lambda>p. fst p = k) ps) of [] \<Rightarrow> None | v # vs \<Rightarrow> Some (v # vs))"

text \<open>What \<open>readHeader\<close> adds to the map \<open>h\<close> for the pairs \<open>ps\<close>.\<close>

definition addValues :: "(string \<rightharpoonup> string list) \<Rightarrow> (string \<times> string) list \<Rightarrow> string \<rightharpoonup> string list" where
  "addValues h ps k =
     (case valuesOf ps k of
        None \<Rightarrow> h k
      | Some vs \<Rightarrow> Some ((case h k of None \<Rightarrow> [] | Some old \<Rightarrow> old) @ vs))"

lemma addValues_Nil: "addValues h [] = h"
  by (rule ext) (simp add: addValues_def valuesOf_def)

lemma addValues_Cons:
  "addValues h ((k, v) # ps) =
     addValues (h(k \<mapsto> (case h k of None \<Rightarrow> [] | Some old \<Rightarrow> old) @ [v])) ps"
  by (rule ext) (auto simp: addValues_def valuesOf_def split: list.splits option.splits)

lemma addValues_empty: "addValues Map.empty ps = valuesOf ps"
  by (rule ext) (simp add: addValues_def split: option.splits)

text \<open>The pairs that successive calls of \<open>readKeyValue\<close> return, up to the empty key or
  the error that ends the header.\<close>

function readPairs :: "nat \<Rightarrow> Reader \<Rightarrow> (string \<times> string) list \<times> error option \<times> Reader" where
  "readPairs n r =
     (case readKeyValue n r of
        (key, val, Some err, r') \<Rightarrow> ([], Some err, r')
      | (key, val, None, r') \<Rightarrow>
          if key = [] then ([], None, r')
          else (case readPairs n r' of (ps, e, r'') \<Rightarrow> ((key, val) # ps, e, r'')))"
  by pat_completeness auto
termination
  by (relation "measure (\<lambda>(n, r). length (pending r))")
     (auto dest!: readKeyValue_shorter [OF sym])

declare readPairs.simps [simp del]

lemma readHeader_readPairs:
  "readHeader canon n r h =
     (case readPairs n r of
        (ps, Some err, r') \<Rightarrow> (Inl err, r')
      | (ps, None, r') \<Rightarrow> (Inr (addValues h (map (\<lambda>(k, v). (canon k, v)) ps)), r'))"
proof (induction n r arbitrary: h rule: readPairs.induct)
  case (1 n r)
  obtain key val eo r1 where kv: "readKeyValue n r = (key, val, eo, r1)"
    by (cases "readKeyValue n r") auto
  show ?case
  proof (cases eo)
    case (Some err)
    with kv show ?thesis by (simp add: readHeader.simps [of canon n r] readPairs.simps [of n r])
  next
    case None
    show ?thesis
    proof (cases "key = []")
      case True
      with kv None show ?thesis
        by (simp add: readHeader.simps [of canon n r] readPairs.simps [of n r] addValues_Nil)
    next
      case False
      obtain ps e r2 where rp: "readPairs n r1 = (ps, e, r2)" by (cases "readPairs n r1") auto
      let ?h = "h(canon key \<mapsto> (case h (canon key) of None \<Rightarrow> [] | Some old \<Rightarrow> old) @ [val])"
      have "readHeader canon n r h = readHeader canon n r1 ?h"
        using kv None False
        by (simp add: readHeader.simps [of canon n r] Let_def split: option.splits)
      also have "\<dots> = (case readPairs n r1 of
          (ps, Some err, r') \<Rightarrow> (Inl err, r')
        | (ps, None, r') \<Rightarrow> (Inr (addValues ?h (map (\<lambda>(k, v). (canon k, v)) ps)), r'))"
        using kv None False by (intro "1.IH" [OF kv [symmetric] refl refl _ False]) simp_all
      finally show ?thesis
        using kv None False rp
        by (simp add: readPairs.simps [of n r] addValues_Cons split: option.splits)
    qed
  qed
qed


subsection \<open>A header as it is written on the wire\<close>

text \<open>
  A header field on the wire: the key, a colon, the first line of the value, and
  continuation lines, each starting with a space or a tab; every line ends with LF. The text
  of a line is the line without the blanks that lead it and without the carriage returns
  and tabs that end it, so without the CR of a line that ends with CRLF. The value unfolded
  is the texts of the lines joined by one space.
\<close>

type_synonym field = "string \<times> string \<times> (char \<times> string) list"

definition foldedField :: "field \<Rightarrow> string" where
  "foldedField fld =
     (case fld of (key, first, conts) \<Rightarrow>
        key @ '':'' @ first @ [LF] @ concat (map (\<lambda>(w, t). w # t @ [LF]) conts))"

definition lineText :: "string \<Rightarrow> string" where
  "lineText t = chop (dropWhile blank t)"

definition unfolded :: "field \<Rightarrow> string" where
  "unfolded fld =
     (case fld of (key, first, conts) \<Rightarrow>
        lineText first @ concat (map (\<lambda>(w, t). '' '' @ lineText t) conts))"

definition wfField :: "nat \<Rightarrow> field \<Rightarrow> bool" where
  "wfField n fld =
     (case fld of (key, first, conts) \<Rightarrow>
        key \<noteq> [] \<and> hd key \<noteq> HT \<and> CHR '':'' \<notin> set key \<and> SP \<notin> set key \<and> LF \<notin> set key \<and>
        LF \<notin> set first \<and> length (key @ '':'' @ first @ [LF]) \<le> n \<and>
        (\<forall>(w, t)\<in>set conts. blank w \<and> LF \<notin> set t \<and> length (w # t @ [LF]) \<le> n))"

lemma ReadSlice_ok:
  assumes "d \<notin> set y" and "length y < n"
  shows "ReadSlice n d \<lparr>pending = y @ d # tl_in, fin = f\<rparr> = (y @ [d], None, \<lparr>pending = tl_in, fin = f\<rparr>)"
proof -
  have "take n (y @ d # tl_in) = y @ d # take (n - Suc (length y)) tl_in"
    using assms(2) by (simp add: take_Cons')
  then have "cutLine d (take n (y @ d # tl_in)) = Some (y @ [d], take (n - Suc (length y)) tl_in)"
    using assms(1) by (simp add: cutLine_line)
  then show ?thesis by (simp add: ReadSlice_def)
qed

text \<open>\<open>chop\<close> takes the carriage returns, tabs and line feeds from the end.\<close>

lemma chop_append: "chop (x @ y) = (if chop y = [] then chop x else x @ chop y)"
  by (auto simp: chop_def dropWhile_append)

lemma chop_LF: "chop (t @ [LF]) = chop t"
  by (simp add: chop_def)

lemma chop_Cons: "c \<noteq> CR \<Longrightarrow> c \<noteq> HT \<Longrightarrow> c \<noteq> LF \<Longrightarrow> chop (c # w) = c # chop w"
  using chop_append [of "[c]" w] by (simp add: chop_def)

lemma chop_prefix: "\<exists>s. t = chop t @ s"
proof -
  let ?P = "\<lambda>c. c = CR \<or> c = HT \<or> c = LF"
  define r where "r = rev t"
  have "rev (takeWhile ?P r @ dropWhile ?P r) = rev (dropWhile ?P r) @ rev (takeWhile ?P r)"
    by (rule rev_append)
  then have "rev r = rev (dropWhile ?P r) @ rev (takeWhile ?P r)" by simp
  then have "t = chop t @ rev (takeWhile ?P (rev t))" unfolding chop_def r_def by simp
  then show ?thesis ..
qed

lemma chop_blanks:
  assumes "\<forall>c\<in>set sp. blank c"
  shows "dropWhile blank (chop sp) = []"
proof -
  from chop_prefix [of sp] obtain s where "sp = chop sp @ s" ..
  then have "set (chop sp) \<subseteq> set sp" by (metis set_append Un_upper1)
  with assms show ?thesis by auto
qed

lemma chop_hd: "chop t \<noteq> [] \<Longrightarrow> hd (chop t) = hd t"
  using chop_prefix [of t] by (metis hd_append2)

lemma readLineBytes_ok:
  assumes "LF \<notin> set t" and "length (t @ [LF]) \<le> n"
  shows "readLineBytes n \<lparr>pending = t @ LF # tl_in, fin = f\<rparr> =
     (chop t, None, \<lparr>pending = tl_in, fin = f\<rparr>)"
proof -
  from assms(2) have "length t < n" by simp
  with assms(1) have "ReadSlice n LF \<lparr>pending = t @ LF # tl_in, fin = f\<rparr> =
      (t @ [LF], None, \<lparr>pending = tl_in, fin = f\<rparr>)"
    by (rule ReadSlice_ok)
  then show ?thesis by (simp add: readLineBytes_def chop_LF)
qed

lemma blank_LF: "\<not> blank LF"
  unfolding blank_def by simp

lemma blank_not_LF: "\<forall>c\<in>set sp. blank c \<Longrightarrow> LF \<notin> set sp"
  using blank_LF by blast

lemma dropWhile_blank_line: "dropWhile blank (t @ LF # tl_in) = dropWhile blank t @ LF # tl_in"
  using blank_LF by (simp add: dropWhile_append)

lemma readExtension_step:
  assumes "pending b = c # cs" and "blank c" and "dropWhile blank cs = d # ds"
    and "readLineBytes n (b\<lparr>pending := d # ds\<rparr>) = (line, None, b')"
  shows "readExtension n b key val = readExtension n b' key (val @ '' '' @ line)"
  using assms by (subst readExtension.simps) (auto simp: blank_def)

text \<open>Where a field ends: at the end of the data, or in front of a line that starts with
  neither a space nor a tab.\<close>

definition fieldEnd :: "string \<Rightarrow> ioerr \<Rightarrow> bool" where
  "fieldEnd tl_in f = (case tl_in of [] \<Rightarrow> f = EOF | c # cs \<Rightarrow> \<not> blank c)"

lemma readExtension_end:
  assumes "fieldEnd tl_in f"
  shows "readExtension n \<lparr>pending = tl_in, fin = f\<rparr> key val = (key, val, None, \<lparr>pending = tl_in, fin = f\<rparr>)"
proof (cases tl_in)
  case Nil
  with assms show ?thesis by (simp add: readExtension.simps fieldEnd_def)
next
  case (Cons c cs)
  with assms have "c \<noteq> SP \<and> c \<noteq> HT" by (simp add: fieldEnd_def blank_def)
  with Cons show ?thesis by (simp add: readExtension.simps)
qed

lemma readExtension_conts:
  assumes "\<forall>(w, t)\<in>set conts. blank w \<and> LF \<notin> set t \<and> length (w # t @ [LF]) \<le> n"
    and "fieldEnd tl_in f"
  shows "readExtension n \<lparr>pending = concat (map (\<lambda>(w, t). w # t @ [LF]) conts) @ tl_in, fin = f\<rparr> key val =
     (key, val @ concat (map (\<lambda>(w, t). '' '' @ lineText t) conts), None, \<lparr>pending = tl_in, fin = f\<rparr>)"
  using assms(1)
proof (induction conts arbitrary: val)
  case Nil
  from readExtension_end [OF assms(2)] show ?case by simp
next
  case (Cons wt conts)
  obtain w t where wt: "wt = (w, t)" by (cases wt) auto
  from Cons.prems wt have w: "blank w" and noLF: "LF \<notin> set t"
    and len: "length (w # t @ [LF]) \<le> n"
    and rest: "\<forall>(w, t)\<in>set conts. blank w \<and> LF \<notin> set t \<and> length (w # t @ [LF]) \<le> n"
    by simp_all
  define more where "more = concat (map (\<lambda>(w, t). w # t @ [LF]) conts) @ tl_in"
  define t' where "t' = dropWhile blank t"
  have dw: "dropWhile blank (t @ LF # more) = t' @ LF # more"
    unfolding t'_def by (rule dropWhile_blank_line)
  obtain d ds where dd: "t' @ LF # more = d # ds" by (cases t') simp_all
  from noLF have noLF': "LF \<notin> set t'" unfolding t'_def by (auto dest: set_dropWhileD)
  have "length t' \<le> length t" unfolding t'_def by (rule length_dropWhile_le)
  with len have len': "length (t' @ [LF]) \<le> n" by simp
  have rl: "readLineBytes n \<lparr>pending = t' @ LF # more, fin = f\<rparr> = (chop t', None, \<lparr>pending = more, fin = f\<rparr>)"
    using noLF' len' by (rule readLineBytes_ok)
  have "readExtension n \<lparr>pending = concat (map (\<lambda>(w, t). w # t @ [LF]) (wt # conts)) @ tl_in, fin = f\<rparr> key val =
        readExtension n \<lparr>pending = w # t @ LF # more, fin = f\<rparr> key val"
    by (simp add: wt more_def)
  also have "\<dots> = readExtension n \<lparr>pending = more, fin = f\<rparr> key (val @ '' '' @ chop t')"
  proof (rule readExtension_step)
    show "pending \<lparr>pending = w # t @ LF # more, fin = f\<rparr> = w # t @ LF # more"
      by simp
    show "blank w" by (rule w)
    show "dropWhile blank (t @ LF # more) = d # ds" unfolding dw by (rule dd)
    show "readLineBytes n (\<lparr>pending = w # t @ LF # more, fin = f\<rparr>\<lparr>pending := d # ds\<rparr>) =
        (chop t', None, \<lparr>pending = more, fin = f\<rparr>)"
      using rl unfolding dd by simp
  qed
  also have "\<dots> = (key, (val @ '' '' @ chop t') @ concat (map (\<lambda>(w, t). '' '' @ lineText t) conts), None,
      \<lparr>pending = tl_in, fin = f\<rparr>)"
    unfolding more_def by (rule Cons.IH [OF rest])
  finally show ?case by (simp add: wt lineText_def t'_def)
qed

lemma Index_first: "c \<notin> set xs \<Longrightarrow> Index (xs @ c # ys) c = Some (length xs)"
  by (induction xs) auto

lemma chop_key_line:
  "\<exists>z. chop (key @ CHR '':'' # first) = key @ CHR '':'' # z \<and> dropWhile blank z = lineText first"
proof -
  define sp where "sp = takeWhile blank first"
  define t where "t = dropWhile blank first"
  have first: "first = sp @ t" unfolding sp_def t_def by simp
  have sp: "\<forall>c\<in>set sp. blank c" unfolding sp_def by (auto dest: set_takeWhileD)
  have t: "t = [] \<or> \<not> blank (hd t)" unfolding t_def by (metis hd_dropWhile)
  have c: "chop (CHR '':'' # first) = CHR '':'' # chop first"
    by (rule chop_Cons) simp_all
  have k: "chop (key @ CHR '':'' # first) = key @ CHR '':'' # chop first"
    unfolding chop_append [of key] c by simp
  have "dropWhile blank (chop (sp @ t)) = chop t"
  proof (cases "chop t = []")
    case True
    with chop_blanks [OF sp] show ?thesis by (simp add: chop_append)
  next
    case False
    then have "t \<noteq> []" by (auto simp: chop_def)
    with t chop_hd [OF False] have "\<not> blank (hd (chop t))" by simp
    with False sp have "dropWhile blank (sp @ chop t) = chop t"
      by (cases "chop t") (simp_all add: dropWhile_append)
    with False show ?thesis by (simp add: chop_append)
  qed
  moreover have "lineText first = chop t" unfolding lineText_def t_def ..
  ultimately have "dropWhile blank (chop first) = lineText first"
    using first by simp
  with k show ?thesis by blast
qed

lemma wfField_D:
  assumes "wfField n (key, first, conts)"
  shows "key \<noteq> []" and "hd key \<noteq> HT" and "CHR '':'' \<notin> set key" and "SP \<notin> set key"
    and "LF \<notin> set key" and "LF \<notin> set first" and "length (key @ '':'' @ first @ [LF]) \<le> n"
    and "\<forall>(w, t)\<in>set conts. blank w \<and> LF \<notin> set t \<and> length (w # t @ [LF]) \<le> n"
  using assms unfolding wfField_def by simp_all

lemma readKeyValue_line:
  assumes "readLineBytes n b = (key @ CHR '':'' # z, None, b1)"
    and "CHR '':'' \<notin> set key" and "SP \<notin> set key"
  shows "readKeyValue n b = readExtension n b1 key (dropWhile blank z)"
proof -
  have ix: "Index (key @ CHR '':'' # z) (CHR '':'') = Some (length key)"
    using assms(2) by (rule Index_first)
  show ?thesis
    unfolding readKeyValue_def assms(1) using assms(3) by (simp add: ix)
qed

lemma field_first_line:
  assumes "wfField n (key, first, conts)"
  shows "\<exists>z. readLineBytes n \<lparr>pending = foldedField (key, first, conts) @ tl_in, fin = f\<rparr> =
      (key @ CHR '':'' # z, None,
       \<lparr>pending = concat (map (\<lambda>(w, t). w # t @ [LF]) conts) @ tl_in, fin = f\<rparr>) \<and>
      dropWhile blank z = lineText first"
proof -
  note wf = wfField_D [OF assms]
  define more where "more = concat (map (\<lambda>(w, t). w # t @ [LF]) conts) @ tl_in"
  define y where "y = key @ CHR '':'' # first"
  have pend: "foldedField (key, first, conts) @ tl_in = y @ LF # more"
    unfolding foldedField_def y_def more_def by simp
  from wf(5,6) have noLF: "LF \<notin> set y" unfolding y_def by simp
  from wf(7) have ylen: "length (y @ [LF]) \<le> n" unfolding y_def by simp
  have rl: "readLineBytes n \<lparr>pending = y @ LF # more, fin = f\<rparr> = (chop y, None, \<lparr>pending = more, fin = f\<rparr>)"
    using noLF ylen by (rule readLineBytes_ok)
  from chop_key_line [of key first] obtain z
    where z: "chop y = key @ CHR '':'' # z" and dz: "dropWhile blank z = lineText first"
    unfolding y_def by blast
  from rl dz show ?thesis unfolding pend more_def z by blast
qed

lemma readKeyValue_field:
  assumes "wfField n fld" and "fieldEnd tl_in f"
  shows "readKeyValue n \<lparr>pending = foldedField fld @ tl_in, fin = f\<rparr> =
     (fst fld, unfolded fld, None, \<lparr>pending = tl_in, fin = f\<rparr>)"
proof -
  obtain key first conts where fld: "fld = (key, first, conts)" by (cases fld) auto
  note wf = wfField_D [OF assms(1) [unfolded fld]]
  from field_first_line [OF assms(1) [unfolded fld], of tl_in f] obtain z
    where rl: "readLineBytes n \<lparr>pending = foldedField fld @ tl_in, fin = f\<rparr> =
      (key @ CHR '':'' # z, None,
       \<lparr>pending = concat (map (\<lambda>(w, t). w # t @ [LF]) conts) @ tl_in, fin = f\<rparr>)"
      and dz: "dropWhile blank z = lineText first"
    unfolding fld by blast
  have "readKeyValue n \<lparr>pending = foldedField fld @ tl_in, fin = f\<rparr> =
        readExtension n \<lparr>pending = concat (map (\<lambda>(w, t). w # t @ [LF]) conts) @ tl_in, fin = f\<rparr>
          key (dropWhile blank z)"
    using rl wf(3) wf(4) by (rule readKeyValue_line)
  also have "\<dots> = (key, lineText first @ concat (map (\<lambda>(w, t). '' '' @ lineText t) conts), None, \<lparr>pending = tl_in, fin = f\<rparr>)"
    unfolding dz using wf(8) assms(2) by (rule readExtension_conts)
  finally show ?thesis by (simp add: fld unfolded_def)
qed

text \<open>How a header ends: with an empty line, or with the data.\<close>

lemma readKeyValue_blank_line:
  assumes "set crs \<subseteq> {CR}" and "length crs < n"
  shows "readKeyValue n \<lparr>pending = crs @ LF # rest, fin = f\<rparr> = ([], [], None, \<lparr>pending = rest, fin = f\<rparr>)"
proof -
  from assms(1) have "LF \<notin> set crs" by auto
  moreover from assms(2) have "length (crs @ [LF]) \<le> n" by simp
  ultimately have "readLineBytes n \<lparr>pending = crs @ LF # rest, fin = f\<rparr> =
      (chop crs, None, \<lparr>pending = rest, fin = f\<rparr>)"
    by (rule readLineBytes_ok)
  moreover from assms(1) have "chop crs = []" by (auto simp: chop_def)
  ultimately show ?thesis by (simp add: readKeyValue_def)
qed

lemma readKeyValue_end:
  assumes "0 < n"
  shows "readKeyValue n \<lparr>pending = [], fin = EOF\<rparr> = ([], [], None, \<lparr>pending = [], fin = EOF\<rparr>)"
  using assms by (simp add: readKeyValue_def readLineBytes_def ReadSlice_def)

lemma fieldEnd_blank_line: "set crs \<subseteq> {CR} \<Longrightarrow> fieldEnd (crs @ LF # rest) f"
  by (cases crs) (auto simp: fieldEnd_def blank_def)

lemma fieldEnd_field:
  assumes "wfField n fld"
  shows "fieldEnd (foldedField fld @ tl_in) f"
proof -
  obtain key first conts where fld: "fld = (key, first, conts)" by (cases fld) auto
  note wf = wfField_D [OF assms [unfolded fld]]
  from wf(1) obtain k ks where key: "key = k # ks" by (cases key) auto
  with wf(2,4) have "\<not> blank k" by (auto simp: blank_def)
  with key show ?thesis by (simp add: fld foldedField_def fieldEnd_def)
qed

lemma readPairs_fields:
  assumes "\<forall>fld\<in>set flds. wfField n fld"
    and "readKeyValue n \<lparr>pending = e, fin = f\<rparr> = ([], [], None, \<lparr>pending = rest, fin = f\<rparr>)"
    and "fieldEnd e f"
  shows "readPairs n \<lparr>pending = concat (map foldedField flds) @ e, fin = f\<rparr> =
     (map (\<lambda>fld. (fst fld, unfolded fld)) flds, None, \<lparr>pending = rest, fin = f\<rparr>)"
  using assms(1)
proof (induction flds)
  case Nil
  show ?case
    by (subst readPairs.simps) (simp add: assms(2))
next
  case (Cons fld flds)
  then have fld: "wfField n fld" and flds: "\<forall>fld\<in>set flds. wfField n fld" by simp_all
  define more where "more = concat (map foldedField flds) @ e"
  have fe: "fieldEnd more f"
  proof (cases flds)
    case Nil
    with assms(3) show ?thesis by (simp add: more_def)
  next
    case (Cons g gs)
    with flds have "wfField n g" by simp
    from fieldEnd_field [OF this, of "concat (map foldedField gs) @ e" f] Cons
    show ?thesis by (simp add: more_def)
  qed
  from fld have k: "fst fld \<noteq> []" by (cases fld) (simp add: wfField_D(1))
  have "readKeyValue n \<lparr>pending = foldedField fld @ more, fin = f\<rparr> =
      (fst fld, unfolded fld, None, \<lparr>pending = more, fin = f\<rparr>)"
    using fld fe by (rule readKeyValue_field)
  then have "readPairs n \<lparr>pending = foldedField fld @ more, fin = f\<rparr> =
      (case readPairs n \<lparr>pending = more, fin = f\<rparr> of
         (ps, e, r'') \<Rightarrow> ((fst fld, unfolded fld) # ps, e, r''))"
    using k by (subst readPairs.simps) simp
  with Cons.IH [OF flds] show ?case by (simp add: more_def)
qed

lemma readHeader_fields:
  assumes "\<forall>fld\<in>set flds. wfField n fld"
    and "readKeyValue n \<lparr>pending = e, fin = f\<rparr> = ([], [], None, \<lparr>pending = rest, fin = f\<rparr>)"
    and "fieldEnd e f"
  shows "readHeader canon n \<lparr>pending = concat (map foldedField flds) @ e, fin = f\<rparr> Map.empty =
     (Inr (valuesOf (map (\<lambda>fld. (canon (fst fld), unfolded fld)) flds)), \<lparr>pending = rest, fin = f\<rparr>)"
proof -
  have m: "map (\<lambda>(k, v). (canon k, v)) (map (\<lambda>fld. (fst fld, unfolded fld)) flds) =
        map (\<lambda>fld. (canon (fst fld), unfolded fld)) flds"
    by simp
  show ?thesis
    unfolding readHeader_readPairs readPairs_fields [OF assms] prod.case option.case
      addValues_empty m ..
qed

lemma readHeader_blank_line:
  assumes "\<forall>fld\<in>set flds. wfField n fld" and "set crs \<subseteq> {CR}" and "length crs < n"
  shows "readHeader canon n
           \<lparr>pending = concat (map foldedField flds) @ crs @ [LF] @ rest, fin = f\<rparr> Map.empty =
         (Inr (valuesOf (map (\<lambda>fld. (canon (fst fld), unfolded fld)) flds)),
          \<lparr>pending = rest, fin = f\<rparr>)"
proof -
  have p: "crs @ [LF] @ rest = crs @ LF # rest" by simp
  show ?thesis
    unfolding p
    using assms(1) readKeyValue_blank_line [OF assms(2,3)] fieldEnd_blank_line [OF assms(2)]
    by (rule readHeader_fields)
qed

lemma readHeader_end:
  assumes "\<forall>fld\<in>set flds. wfField n fld" and "0 < n"
  shows "readHeader canon n \<lparr>pending = concat (map foldedField flds), fin = EOF\<rparr> Map.empty =
         (Inr (valuesOf (map (\<lambda>fld. (canon (fst fld), unfolded fld)) flds)),
          \<lparr>pending = [], fin = EOF\<rparr>)"
proof -
  have "fieldEnd [] EOF" by (simp add: fieldEnd_def)
  with assms(1) readKeyValue_end [OF assms(2)]
  have "readHeader canon n \<lparr>pending = concat (map foldedField flds) @ [], fin = EOF\<rparr> Map.empty =
         (Inr (valuesOf (map (\<lambda>fld. (canon (fst fld), unfolded fld)) flds)),
          \<lparr>pending = [], fin = EOF\<rparr>)"
    by (rule readHeader_fields)
  then show ?thesis by simp
qed


text \<open>
  C8, amended. Let a header be written as fields. A field is a key, a colon and the value
  on one line or more; the lines after the first start with a space or a tab. The key is not
  empty, holds no colon, space or line feed and does not start with a tab. Every line ends
  with LF, so with LF or with CRLF, and is with its LF no longer than the buffer of the
  reader, which holds one byte at least. The fields are followed by an empty line (LF, or
  CRs and LF) or by the end of the data. Then \<open>readHeader\<close> returns the map that gives, for
  every canonical key, the values of the fields with that key, in the order of the fields,
  each value unfolded: the texts of its lines joined by one space, the text of a line being
  the line without the blanks that lead it and without the carriage returns and tabs that
  end it. A key that occurs again adds an entry to the list of the key; values are never
  merged. The reader is left behind the empty line, or at the end of the data. The result
  is a map: it keeps no order among the keys.
\<close>

theorem readHeader_folded_header:
  assumes "\<forall>fld\<in>set flds. wfField n fld"
  shows "(set crs \<subseteq> {CR} \<and> length crs < n \<longrightarrow>
            readHeader canon n
              \<lparr>pending = concat (map foldedField flds) @ crs @ [LF] @ rest, fin = f\<rparr> Map.empty =
            (Inr (valuesOf (map (\<lambda>fld. (canon (fst fld), unfolded fld)) flds)),
             \<lparr>pending = rest, fin = f\<rparr>)) \<and>
         (0 < n \<longrightarrow>
            readHeader canon n \<lparr>pending = concat (map foldedField flds), fin = EOF\<rparr> Map.empty =
            (Inr (valuesOf (map (\<lambda>fld. (canon (fst fld), unfolded fld)) flds)),
             \<lparr>pending = [], fin = EOF\<rparr>))"
  using readHeader_blank_line [OF assms] readHeader_end [OF assms] by blast

text \<open>An instance of \<open>canon\<close> for the examples: what every version of
  \<^verbatim>\<open>http.CanonicalHeaderKey\<close> does to a key of letters, digits and hyphens.\<close>

fun canonMIME :: "bool \<Rightarrow> string \<Rightarrow> string" where
  "canonMIME upper [] = []"
| "canonMIME upper (c # cs) =
     (let n = (of_char c :: nat);
          c' = (if upper \<and> 97 \<le> n \<and> n \<le> 122 then char_of (n - 32)
                else if \<not> upper \<and> 65 \<le> n \<and> n \<le> 90 then char_of (n + 32)
                else c)
      in c' # canonMIME (c = CHR ''-'') cs)"

definition canonKey :: "string \<Rightarrow> string" where
  "canonKey s = canonMIME True s"

text \<open>A header with lines that end with CRLF, with LF and with a tab and CRLF.\<close>

definition example_fields :: "field list" where
  "example_fields =
     [(''subject'', '' hello'' @ [CR], [(SP, '' folded''), (HT, ''world'' @ [HT, CR])]),
      (''X-No'', '' 1'', []),
      (''Message-ID'', ''<a@b>'' @ [CR], []),
      (''x-no'', ''  2'' @ [CR], [])]"

definition example_wire :: string where
  "example_wire =
     ''subject: hello'' @ [CR, LF] @ ''  folded'' @ [LF] @ [HT] @ ''world'' @ [HT, CR, LF] @
     ''X-No: 1'' @ [LF] @ ''Message-ID:<a@b>'' @ [CR, LF] @ ''x-no:  2'' @ [CR, LF]"

lemma example_fields_wf: "\<forall>fld\<in>set example_fields. wfField 4096 fld"
  by code_simp

lemma example_fields_wire: "concat (map foldedField example_fields) = example_wire"
  by code_simp

lemma example_fields_values:
  "map (\<lambda>fld. (canonKey (fst fld), unfolded fld)) example_fields =
     [(''Subject'', ''hello folded world''), (''X-No'', ''1''), (''Message-Id'', ''<a@b>''),
      (''X-No'', ''2'')]"
  by code_simp

theorem readHeader_folded_header_witness:
  "\<exists>h. readHeader canonKey 4096 \<lparr>pending = example_wire @ [CR, LF] @ ''text'', fin = EOF\<rparr> Map.empty =
      (Inr h, \<lparr>pending = ''text'', fin = EOF\<rparr>) \<and>
    readHeader canonKey 4096 \<lparr>pending = example_wire, fin = EOF\<rparr> Map.empty =
      (Inr h, \<lparr>pending = [], fin = EOF\<rparr>) \<and>
    h ''Subject'' = Some [''hello folded world''] \<and> h ''X-No'' = Some [''1'', ''2''] \<and>
    h ''Message-Id'' = Some [''<a@b>''] \<and> h ''x-no'' = None"
proof -
  let ?h = "valuesOf [(''Subject'', ''hello folded world''), (''X-No'', ''1''),
      (''Message-Id'', ''<a@b>''), (''X-No'', ''2'')]"
  have c: "set [CR] \<subseteq> {CR} \<and> length [CR] < (4096::nat)" and n: "0 < (4096::nat)" by simp_all
  from readHeader_folded_header [OF example_fields_wf, of "[CR]" canonKey "''text''" EOF] c n
  have "readHeader canonKey 4096 \<lparr>pending = example_wire @ [CR] @ [LF] @ ''text'', fin = EOF\<rparr> Map.empty =
      (Inr ?h, \<lparr>pending = ''text'', fin = EOF\<rparr>)"
    and "readHeader canonKey 4096 \<lparr>pending = example_wire, fin = EOF\<rparr> Map.empty =
      (Inr ?h, \<lparr>pending = [], fin = EOF\<rparr>)"
    unfolding example_fields_wire example_fields_values by blast+
  moreover have "?h ''Subject'' = Some [''hello folded world''] \<and> ?h ''X-No'' = Some [''1'', ''2''] \<and>
    ?h ''Message-Id'' = Some [''<a@b>''] \<and> ?h ''x-no'' = None"
    by (simp add: valuesOf_def)
  ultimately show ?thesis by (intro exI [of _ ?h]) simp
qed

lemma order_fields_wf:
  "\<forall>fld\<in>set [(''A'', '' 1'' @ [CR], []), (''B'', '' 2'' @ [CR], [])]. wfField 4096 fld"
  "\<forall>fld\<in>set [(''B'', '' 2'' @ [CR], []), (''A'', '' 1'' @ [CR], [])]. wfField 4096 fld"
  by code_simp+

lemma order_fields_wire:
  "''A: 1'' @ [CR, LF] @ ''B: 2'' @ [CR, LF] @ [CR, LF] =
     concat (map foldedField [(''A'', '' 1'' @ [CR], []), (''B'', '' 2'' @ [CR], [])]) @
       [CR] @ [LF] @ []"
  "''B: 2'' @ [CR, LF] @ ''A: 1'' @ [CR, LF] @ [CR, LF] =
     concat (map foldedField [(''B'', '' 2'' @ [CR], []), (''A'', '' 1'' @ [CR], [])]) @
       [CR] @ [LF] @ []"
  by code_simp+

lemma order_fields_values:
  "valuesOf (map (\<lambda>fld. (canonKey (fst fld), unfolded fld))
      [(''A'', '' 1'' @ [CR], []), (''B'', '' 2'' @ [CR], [])]) =
   valuesOf (map (\<lambda>fld. (canonKey (fst fld), unfolded fld))
      [(''B'', '' 2'' @ [CR], []), (''A'', '' 1'' @ [CR], [])])"
proof -
  have "map (\<lambda>fld. (canonKey (fst fld), unfolded fld))
      [(''A'', '' 1'' @ [CR], []), (''B'', '' 2'' @ [CR], [])] =
      [(''A'', ''1''), (''B'', ''2'')]"
    by code_simp
  moreover have "map (\<lambda>fld. (canonKey (fst fld), unfolded fld))
      [(''B'', '' 2'' @ [CR], []), (''A'', '' 1'' @ [CR], [])] =
      [(''B'', ''2''), (''A'', ''1'')]"
    by code_simp
  moreover have "valuesOf [(''A'', ''1''), (''B'', ''2'')] = valuesOf [(''B'', ''2''), (''A'', ''1'')]"
    by (rule ext) (auto simp: valuesOf_def)
  ultimately show ?thesis by simp
qed

text \<open>
  C8, counterexample. Two headers with the same fields in different orders give the same
  result: the order in which the keys were first seen is not in it.
\<close>

theorem readHeader_key_order_counterexample:
  "readHeader canonKey 4096
     \<lparr>pending = ''A: 1'' @ [CR, LF] @ ''B: 2'' @ [CR, LF] @ [CR, LF], fin = EOF\<rparr> Map.empty =
   readHeader canonKey 4096
     \<lparr>pending = ''B: 2'' @ [CR, LF] @ ''A: 1'' @ [CR, LF] @ [CR, LF], fin = EOF\<rparr> Map.empty"
proof -
  have c: "set [CR] \<subseteq> {CR}" "length [CR] < (4096::nat)" by simp_all
  show ?thesis
    unfolding order_fields_wire
      readHeader_blank_line [OF order_fields_wf(1) c] readHeader_blank_line [OF order_fields_wf(2) c]
      order_fields_values ..
qed

text \<open>The header of an article as the body reader hands it on: the lines end with LF and the
  data ends where the terminator was.\<close>

lemma readHeader_behind_body_example:
  "(case ReadAll 511 \<lparr>eof = False, buf = []\<rparr>
           \<lparr>pending = ''Subject: a'' @ [CR, LF] @ '' b'' @ [CR, LF] @ ''.'' @ [CR, LF], fin = EOF\<rparr> [] of
      Return (text, None, r, cr) \<Rightarrow>
        text = ''Subject: a'' @ [LF] @ '' b'' @ [LF] \<and>
        (case readHeader canonKey 4096 \<lparr>pending = text, fin = EOF\<rparr> Map.empty of
           (Inr h, r') \<Rightarrow> h ''Subject'' = Some [''a b''] \<and> pending r' = []
         | (Inl e, r') \<Rightarrow> False)
    | Return (text, Some e, r, cr) \<Rightarrow> False
    | Panic m \<Rightarrow> False)"
  by code_simp

text \<open>Outside this form. A line without a colon and a key with a space are refused; a line
  longer than the buffer is an error of the reader; an empty key ends the header; a line
  that starts with a tab continues the value before it.\<close>

lemma readHeader_other_lines:
  "(case readHeader canonKey 4096
           \<lparr>pending = ''A: 1'' @ [LF] @ ''no colon'' @ [LF] @ [LF], fin = EOF\<rparr> Map.empty of
      (Inl e, r) \<Rightarrow> e = ProtocolError ''malformed header line: no colon''
    | (Inr h, r) \<Rightarrow> False)"
  "(case readHeader canonKey 4096
           \<lparr>pending = ''A: 1'' @ [LF] @ ''B C: 2'' @ [LF] @ [LF], fin = EOF\<rparr> Map.empty of
      (Inl e, r) \<Rightarrow> e = ProtocolError ''malformed header line: B C: 2''
    | (Inr h, r) \<Rightarrow> False)"
  "(case readHeader canonKey 16
           \<lparr>pending = ''A: 0123456789abcdef'' @ [LF] @ [LF], fin = EOF\<rparr> Map.empty of
      (Inl e, r) \<Rightarrow> e = IOError ErrBufferFull
    | (Inr h, r) \<Rightarrow> False)"
  "(case readHeader canonKey 4096
           \<lparr>pending = ''A: 1'' @ [LF] @ '':x'' @ [LF] @ ''B: 2'' @ [LF] @ [LF], fin = EOF\<rparr> Map.empty of
      (Inl e, r) \<Rightarrow> False
    | (Inr h, r) \<Rightarrow> h ''A'' = Some [''1''] \<and> h ''B'' = None \<and> pending r = ''B: 2'' @ [LF, LF])"
  "(case readHeader canonKey 4096
           \<lparr>pending = ''A: 1'' @ [LF] @ [HT] @ ''B: 2'' @ [LF] @ [LF], fin = EOF\<rparr> Map.empty of
      (Inl e, r) \<Rightarrow> False
    | (Inr h, r) \<Rightarrow> h ''A'' = Some [''1 B: 2''] \<and> h ''B'' = None \<and> pending r = [])"
  by code_simp+

end
